theory Spec2Isabelle
  imports Complex_Main "HOL-Library.AList"
begin

section \<open>Characters and the character classes of the patterns\<close>

text \<open>
  A line of the log is a \<open>string\<close>; a character stands for the code point of the same
  number (the code points below 256). The four predicates below are the classifications
  that Python applies to these code points: \<open>is_space\<close> is the whitespace test behind
  \<^verbatim>\<open>\s\<close>, \<^verbatim>\<open>\S\<close> and \<^verbatim>\<open>str.split()\<close>, \<open>is_decimal\<close> is the test behind \<^verbatim>\<open>\d\<close>,
  \<open>is_alnum\<close> the one behind \<^verbatim>\<open>\w\<close>, and \<open>is_digit_char\<close> the one behind
  \<^verbatim>\<open>str.isdigit()\<close> (which also accepts the superscript digits).
\<close>

definition is_space :: "char \<Rightarrow> bool" where
  "is_space c =
     (let n = (of_char c :: nat)
      in (9 \<le> n \<and> n \<le> 13) \<or> (28 \<le> n \<and> n \<le> 32) \<or> n = 133 \<or> n = 160)"

definition is_decimal :: "char \<Rightarrow> bool" where
  "is_decimal c = (let n = (of_char c :: nat) in 48 \<le> n \<and> n \<le> 57)"

definition is_digit_char :: "char \<Rightarrow> bool" where
  "is_digit_char c =
     (let n = (of_char c :: nat) in (48 \<le> n \<and> n \<le> 57) \<or> n = 178 \<or> n = 179 \<or> n = 185)"

definition is_alnum :: "char \<Rightarrow> bool" where
  "is_alnum c =
     (let n = (of_char c :: nat)
      in (48 \<le> n \<and> n \<le> 57) \<or> (65 \<le> n \<and> n \<le> 90) \<or> (97 \<le> n \<and> n \<le> 122)
         \<or> n = 170 \<or> n = 178 \<or> n = 179 \<or> n = 181 \<or> n = 185 \<or> n = 186
         \<or> (188 \<le> n \<and> n \<le> 190) \<or> (192 \<le> n \<and> n \<le> 214)
         \<or> (216 \<le> n \<and> n \<le> 246) \<or> (248 \<le> n \<and> n \<le> 255))"

text \<open>The number that a string of decimal digits writes in base ten.\<close>

definition digit_val :: "char \<Rightarrow> nat" where
  "digit_val c = of_char c - 48"

definition decimal_val :: "string \<Rightarrow> nat" where
  "decimal_val s = foldl (\<lambda>n c. 10 * n + digit_val c) 0 s"

datatype cclass = NonSpace | Digit | WordChar | AnyChar

text \<open>\<^verbatim>\<open>\S\<close>, \<^verbatim>\<open>\d\<close>, \<^verbatim>\<open>\w\<close> and \<^verbatim>\<open>.\<close> (every character but the newline).\<close>

fun in_class :: "cclass \<Rightarrow> char \<Rightarrow> bool" where
  "in_class NonSpace c = (\<not> is_space c)"
| "in_class Digit c = is_decimal c"
| "in_class WordChar c = (is_alnum c \<or> c = CHR ''_'')"
| "in_class AnyChar c = (c \<noteq> CHR 0x0A)"

section \<open>The regular expressions of the format table and \<^verbatim>\<open>re.match\<close>\<close>

text \<open>
  The five patterns of \<^verbatim>\<open>log_patterns\<close> are built from literal characters, a greedy
  \<^verbatim>\<open>X+\<close>, a lazy \<^verbatim>\<open>X*?\<close> and a counted \<^verbatim>\<open>X{n}\<close> over a character class, and capturing
  groups. A pattern is the list of its items in reading order, the parentheses of a group
  being items of their own. \<open>Eos\<close> is the end-of-string anchor \<^verbatim>\<open>\Z\<close>; no pattern of the
  table has one, it serves to say what a match of the whole line is.
\<close>

datatype item =
    Lit char
  | GreedyPlus cclass
  | LazyStar cclass
  | Repeat nat cclass
  | GOpen
  | GClose
  | Eos

type_synonym regex = "item list"

fun first_some :: "'a option list \<Rightarrow> 'a option" where
  "first_some [] = None"
| "first_some (None # xs) = first_some xs"
| "first_some (Some y # xs) = Some y"

text \<open>
  \<open>run p s st gs\<close> is the backtracking matcher at the items \<open>p\<close> still to match and
  the rest \<open>s\<close> of the subject: \<open>st\<close> holds, for every group that is open, its number and
  the rest of the subject where it opened, and \<open>gs\<close> the text of the groups so far. The
  result is the groups of the first match in the order in which a backtracking matcher
  explores: a greedy repetition tries the longest run first, a lazy one the shortest.
\<close>

fun run :: "regex \<Rightarrow> string \<Rightarrow> (nat \<times> string) list \<Rightarrow> string list \<Rightarrow> string list option" where
  "run [] s st gs = Some gs"
| "run (Lit c # p) s st gs =
     (case s of [] \<Rightarrow> None | x # xs \<Rightarrow> if x = c then run p xs st gs else None)"
| "run (GreedyPlus cc # p) s st gs =
     first_some (map (\<lambda>k. run p (drop k s) st gs)
                     (rev [1 ..< Suc (length (takeWhile (in_class cc) s))]))"
| "run (LazyStar cc # p) s st gs =
     first_some (map (\<lambda>k. run p (drop k s) st gs)
                     [0 ..< Suc (length (takeWhile (in_class cc) s))])"
| "run (Repeat n cc # p) s st gs =
     (if n \<le> length s \<and> list_all (in_class cc) (take n s) then run p (drop n s) st gs
      else None)"
| "run (GOpen # p) s st gs = run p s ((length gs, s) # st) (gs @ [[]])"
| "run (GClose # p) s st gs =
     (case st of
        [] \<Rightarrow> run p s st gs
      | (i, s0) # st' \<Rightarrow> run p s st' (gs[i := take (length s0 - length s) s0]))"
| "run (Eos # p) s st gs = (if s = [] then run p s st gs else None)"

text \<open>\<^verbatim>\<open>re.match(pattern, line)\<close>: the match starts at the first character of the line;
  the result is \<^verbatim>\<open>match.groups()\<close>, or \<open>None\<close> when there is no match.\<close>

definition re_match :: "regex \<Rightarrow> string \<Rightarrow> string list option" where
  "re_match p line = run p line [] []"

definition lits :: "string \<Rightarrow> regex" where
  "lits s = map Lit s"

definition grp :: "regex \<Rightarrow> regex" where
  "grp p = GOpen # p @ [GClose]"

text \<open>
  \<^verbatim>\<open>'apache': r'(\S+) \S+ \S+ \[(.*?)\] "(.*?)" (\d+) (\d+)'\<close>
\<close>

definition pat_apache :: regex where
  "pat_apache =
     grp [GreedyPlus NonSpace] @ lits '' '' @ [GreedyPlus NonSpace] @ lits '' ''
     @ [GreedyPlus NonSpace] @ lits '' ['' @ grp [LazyStar AnyChar] @ lits ''] \"''
     @ grp [LazyStar AnyChar] @ lits ''\" '' @ grp [GreedyPlus Digit] @ lits '' ''
     @ grp [GreedyPlus Digit]"

text \<open>
  \<^verbatim>\<open>'common': r'(\S+) - - \[(.*?)\] "(.*?)" (\d+) (\d+)'\<close>
\<close>

definition pat_common :: regex where
  "pat_common =
     grp [GreedyPlus NonSpace] @ lits '' - - ['' @ grp [LazyStar AnyChar] @ lits ''] \"''
     @ grp [LazyStar AnyChar] @ lits ''\" '' @ grp [GreedyPlus Digit] @ lits '' ''
     @ grp [GreedyPlus Digit]"

text \<open>
  \<^verbatim>\<open>'nginx': r'(\S+) - - \[(.*?)\] "(.*?)" (\d+) (\d+) "(.*?)" "(.*?)"'\<close>, and
  \<^verbatim>\<open>'combined'\<close> with the same pattern text.
\<close>

definition pat_nginx :: regex where
  "pat_nginx =
     grp [GreedyPlus NonSpace] @ lits '' - - ['' @ grp [LazyStar AnyChar] @ lits ''] \"''
     @ grp [LazyStar AnyChar] @ lits ''\" '' @ grp [GreedyPlus Digit] @ lits '' ''
     @ grp [GreedyPlus Digit] @ lits '' \"'' @ grp [LazyStar AnyChar] @ lits ''\" \"''
     @ grp [LazyStar AnyChar] @ lits ''\"''"

definition pat_combined :: regex where
  "pat_combined =
     grp [GreedyPlus NonSpace] @ lits '' - - ['' @ grp [LazyStar AnyChar] @ lits ''] \"''
     @ grp [LazyStar AnyChar] @ lits ''\" '' @ grp [GreedyPlus Digit] @ lits '' ''
     @ grp [GreedyPlus Digit] @ lits '' \"'' @ grp [LazyStar AnyChar] @ lits ''\" \"''
     @ grp [LazyStar AnyChar] @ lits ''\"''"

text \<open>
  \<^verbatim>\<open>'custom': r'(\d{4}-\d{2}-\d{2} \d{2}:\d{2}:\d{2}) (\w+): (.+)'\<close>
\<close>

definition pat_custom :: regex where
  "pat_custom =
     grp ([Repeat 4 Digit] @ lits ''-'' @ [Repeat 2 Digit] @ lits ''-'' @ [Repeat 2 Digit]
          @ lits '' '' @ [Repeat 2 Digit] @ lits '':'' @ [Repeat 2 Digit] @ lits '':''
          @ [Repeat 2 Digit])
     @ lits '' '' @ grp [GreedyPlus WordChar] @ lits '': '' @ grp [GreedyPlus AnyChar]"

text \<open>The table \<^verbatim>\<open>self.log_patterns\<close>, a dictionary, in the order of its insertion.\<close>

definition log_patterns :: "(string \<times> regex) list" where
  "log_patterns =
     [(''apache'', pat_apache), (''nginx'', pat_nginx), (''common'', pat_common),
      (''combined'', pat_combined), (''custom'', pat_custom)]"

section \<open>Exceptions\<close>

text \<open>
  An operation that can raise returns a value of \<open>exn + 'a\<close>, \<open>Inl\<close> carrying the
  exception; \<open>rbind\<close> sequences two of them, the second not being run when the first raised.
\<close>

datatype exn =
  IndexError | ValueError | KeyError | TypeError | OverflowError | ZeroDivisionError

definition rbind :: "exn + 'a \<Rightarrow> ('a \<Rightarrow> exn + 'b) \<Rightarrow> exn + 'b" where
  "rbind m f = (case m of Inl e \<Rightarrow> Inl e | Inr x \<Rightarrow> f x)"

section \<open>Instants\<close>

text \<open>
  A \<^verbatim>\<open>datetime\<close> object: the fields of the calendar date and of the time of day, and
  \<open>tzinfo\<close>, the offset from UTC in seconds of an aware object, \<open>None\<close> for a naive one.
\<close>

record datetime =
  year :: nat
  month :: nat
  day :: nat
  hour :: nat
  minute :: nat
  second :: nat
  microsecond :: nat
  tzinfo :: "int option"

definition is_leap :: "nat \<Rightarrow> bool" where
  "is_leap y = (y mod 4 = 0 \<and> (y mod 100 \<noteq> 0 \<or> y mod 400 = 0))"

definition days_in_month :: "nat \<Rightarrow> nat \<Rightarrow> nat" where
  "days_in_month y m =
     (if m = 2 then (if is_leap y then 29 else 28)
      else if m = 4 \<or> m = 6 \<or> m = 9 \<or> m = 11 then 30 else 31)"

definition days_before_year :: "nat \<Rightarrow> nat" where
  "days_before_year y = (y - 1) * 365 + (y - 1) div 4 - (y - 1) div 100 + (y - 1) div 400"

definition days_before_month :: "nat \<Rightarrow> nat \<Rightarrow> nat" where
  "days_before_month y m = sum_list (map (days_in_month y) [1 ..< m])"

text \<open>The microseconds from the start of year 1 to the wall-clock fields of the object.\<close>

definition wall_us :: "datetime \<Rightarrow> int" where
  "wall_us d =
     (((int (days_before_year (year d) + days_before_month (year d) (month d) + day d) * 24
        + int (hour d)) * 60 + int (minute d)) * 60 + int (second d)) * 1000000
     + int (microsecond d)"

definition base_fields :: "datetime \<Rightarrow> nat list" where
  "base_fields d = [year d, month d, day d, hour d, minute d, second d, microsecond d]"

fun lex_less :: "nat list \<Rightarrow> nat list \<Rightarrow> bool" where
  "lex_less [] ys = (ys \<noteq> [])"
| "lex_less (x # xs) [] = False"
| "lex_less (x # xs) (y # ys) = (x < y \<or> (x = y \<and> lex_less xs ys))"

text \<open>
  \<^verbatim>\<open>a < b\<close> on two \<^verbatim>\<open>datetime\<close> objects: two naive objects, and two aware ones of the same
  offset, compare by their fields; two aware ones of different offsets compare as instants
  of UTC; a naive and an aware one do not compare, the interpreter raises \<^verbatim>\<open>TypeError\<close>.
\<close>

definition dt_less :: "datetime \<Rightarrow> datetime \<Rightarrow> exn + bool" where
  "dt_less a b =
     (case (tzinfo a, tzinfo b) of
        (None, None) \<Rightarrow> Inr (lex_less (base_fields a) (base_fields b))
      | (Some oa, Some ob) \<Rightarrow>
          if oa = ob then Inr (lex_less (base_fields a) (base_fields b))
          else Inr (wall_us a - oa * 1000000 < wall_us b - ob * 1000000)
      | _ \<Rightarrow> Inl TypeError)"

text \<open>\<^verbatim>\<open>a - b\<close> on two \<^verbatim>\<open>datetime\<close> objects, a \<^verbatim>\<open>timedelta\<close>, in microseconds.\<close>

definition dt_sub :: "datetime \<Rightarrow> datetime \<Rightarrow> exn + int" where
  "dt_sub a b =
     (case (tzinfo a, tzinfo b) of
        (None, None) \<Rightarrow> Inr (wall_us a - wall_us b)
      | (Some oa, Some ob) \<Rightarrow> Inr ((wall_us a - oa * 1000000) - (wall_us b - ob * 1000000))
      | _ \<Rightarrow> Inl TypeError)"

section \<open>The timestamp parser\<close>

text \<open>
  \<^verbatim>\<open>datetime.strptime\<close> belongs to the standard library, not to the program. The
  functions of the program take it as their first argument \<open>sp\<close>, of the type below: the
  data string and the format give an object or \<open>None\<close>, which stands for the
  \<^verbatim>\<open>ValueError\<close> that the library raises on a string the format does not describe. Every
  theorem about the program holds for every such function.
\<close>

type_synonym strptime_fn = "string \<Rightarrow> string \<Rightarrow> datetime option"

definition timestamp_formats :: "string list" where
  "timestamp_formats =
     [''%d/%b/%Y:%H:%M:%S %z'', ''%d/%b/%Y:%H:%M:%S'', ''%Y-%m-%d %H:%M:%S'',
      ''%Y-%m-%d %H:%M:%S.%f'']"

text \<open>The loop of \<^verbatim>\<open>parse_timestamp\<close>: \<^verbatim>\<open>try: return strptime(..) except ValueError: continue\<close>.\<close>

fun try_formats :: "strptime_fn \<Rightarrow> string \<Rightarrow> string list \<Rightarrow> datetime option" where
  "try_formats sp timestamp_str [] = None"
| "try_formats sp timestamp_str (fmt # fmts) =
     (case sp timestamp_str fmt of
        Some d \<Rightarrow> Some d
      | None \<Rightarrow> try_formats sp timestamp_str fmts)"

definition parse_timestamp :: "strptime_fn \<Rightarrow> string \<Rightarrow> datetime option" where
  "parse_timestamp sp timestamp_str = try_formats sp timestamp_str timestamp_formats"

subsection \<open>A model of the library's \<^verbatim>\<open>strptime\<close>\<close>

text \<open>
  The closed examples below need one function of this type to run on. \<open>strptime\<close>
  follows the library on the directives of the four formats: the library turns the format
  into a regular expression (a directive becomes the alternatives listed at each case of
  \<open>directive\<close>, tried in that order, a run of whitespace becomes \<^verbatim>\<open>\s+\<close>, every other
  character stands for itself, letters without regard to case), takes the first match at
  the start of the data, and raises \<^verbatim>\<open>ValueError\<close> when there is none, when the match
  leaves data unread, or when the fields are not those of a date and a time of day. The
  month names are those of the C locale. Of the offsets that \<^verbatim>\<open>%z\<close> reads, the model
  covers \<^verbatim>\<open>Z\<close> and a sign with hours and minutes, with or without a colon; on an offset with
  a part for seconds, and on a directive other than these nine, it gives \<open>None\<close> where the
  library may return an object.
\<close>

record tm =
  tm_year :: nat
  tm_mon :: nat
  tm_mday :: nat
  tm_hour :: nat
  tm_min :: nat
  tm_sec :: nat
  tm_usec :: nat
  tm_gmtoff :: "int option"

definition two_digits :: "nat \<Rightarrow> nat \<Rightarrow> string \<Rightarrow> (nat \<times> string) list" where
  "two_digits lo hi s =
     (if 2 \<le> length s \<and> list_all is_decimal (take 2 s)
         \<and> lo \<le> decimal_val (take 2 s) \<and> decimal_val (take 2 s) \<le> hi
      then [(decimal_val (take 2 s), drop 2 s)] else [])"

definition one_digit :: "nat \<Rightarrow> string \<Rightarrow> (nat \<times> string) list" where
  "one_digit lo s =
     (case s of
        [] \<Rightarrow> []
      | c # cs \<Rightarrow> if is_decimal c \<and> lo \<le> digit_val c then [(digit_val c, cs)] else [])"

definition ascii_lower :: "char \<Rightarrow> char" where
  "ascii_lower c =
     (case map_of (zip ''ABCDEFGHIJKLMNOPQRSTUVWXYZ'' ''abcdefghijklmnopqrstuvwxyz'') c of
        None \<Rightarrow> c
      | Some l \<Rightarrow> l)"

definition month_names :: "string list" where
  "month_names =
     [''jan'', ''feb'', ''mar'', ''apr'', ''may'', ''jun'', ''jul'', ''aug'', ''sep'',
      ''oct'', ''nov'', ''dec'']"

fun index_of :: "'a \<Rightarrow> 'a list \<Rightarrow> nat option" where
  "index_of x [] = None"
| "index_of x (y # ys) =
     (if x = y then Some 0 else (case index_of x ys of None \<Rightarrow> None | Some i \<Rightarrow> Some (Suc i)))"

text \<open>The offsets \<^verbatim>\<open>[+-]HH:?MM\<close> and \<^verbatim>\<open>Z\<close>, in seconds.\<close>

definition tz_offset :: "string \<Rightarrow> (int \<times> string) list" where
  "tz_offset s =
     (case s of
        [] \<Rightarrow> []
      | c # cs \<Rightarrow>
          if c = CHR ''+'' \<or> c = CHR ''-'' then
            (if 2 \<le> length cs \<and> list_all is_decimal (take 2 cs) then
               (let h = decimal_val (take 2 cs);
                    r = drop 2 cs;
                    sign = (if c = CHR ''-'' then - 1 else 1 :: int);
                    mins = (\<lambda>r'. map (\<lambda>(m, r''). (sign * int (h * 3600 + m * 60), r''))
                                    (two_digits 0 59 r'))
                in (case r of CHR '':'' # r' \<Rightarrow> mins r' | _ \<Rightarrow> []) @ mins r)
             else [])
          else if c = CHR ''Z'' then [(0, cs)]
          else [])"

text \<open>
  The alternatives of a directive at the data \<open>s\<close>, in the order of the library's regular
  expression, each with the fields it sets and the data it leaves:
  \<^verbatim>\<open>%d\<close> is \<^verbatim>\<open>3[0-1]|[1-2]\d|0[1-9]|[1-9]| [1-9]\<close>, \<^verbatim>\<open>%m\<close> is \<^verbatim>\<open>1[0-2]|0[1-9]|[1-9]\<close>,
  \<^verbatim>\<open>%H\<close> is \<^verbatim>\<open>2[0-3]|[0-1]\d|\d\<close>, \<^verbatim>\<open>%M\<close> is \<^verbatim>\<open>[0-5]\d|\d\<close>, \<^verbatim>\<open>%S\<close> is \<^verbatim>\<open>6[0-1]|[0-5]\d|\d\<close>,
  \<^verbatim>\<open>%Y\<close> is \<^verbatim>\<open>\d\d\d\d\<close>, \<^verbatim>\<open>%f\<close> is \<^verbatim>\<open>[0-9]{1,6}\<close>, \<^verbatim>\<open>%b\<close> is one of the month names.
\<close>

definition directive :: "char \<Rightarrow> tm \<Rightarrow> string \<Rightarrow> (tm \<times> string) list" where
  "directive d t s =
     (if d = CHR ''d'' then
        map (\<lambda>(v, r). (t\<lparr>tm_mday := v\<rparr>, r))
            (two_digits 1 31 s @ one_digit 1 s
             @ (case s of CHR '' '' # cs \<Rightarrow> one_digit 1 cs | _ \<Rightarrow> []))
      else if d = CHR ''m'' then
        map (\<lambda>(v, r). (t\<lparr>tm_mon := v\<rparr>, r)) (two_digits 1 12 s @ one_digit 1 s)
      else if d = CHR ''H'' then
        map (\<lambda>(v, r). (t\<lparr>tm_hour := v\<rparr>, r)) (two_digits 0 23 s @ one_digit 0 s)
      else if d = CHR ''M'' then
        map (\<lambda>(v, r). (t\<lparr>tm_min := v\<rparr>, r)) (two_digits 0 59 s @ one_digit 0 s)
      else if d = CHR ''S'' then
        map (\<lambda>(v, r). (t\<lparr>tm_sec := v\<rparr>, r)) (two_digits 0 61 s @ one_digit 0 s)
      else if d = CHR ''Y'' then
        (if 4 \<le> length s \<and> list_all is_decimal (take 4 s)
         then [(t\<lparr>tm_year := decimal_val (take 4 s)\<rparr>, drop 4 s)] else [])
      else if d = CHR ''f'' then
        map (\<lambda>k. (t\<lparr>tm_usec := decimal_val (take k s) * 10 ^ (6 - k)\<rparr>, drop k s))
            (rev [1 ..< Suc (min 6 (length (takeWhile is_decimal s)))])
      else if d = CHR ''b'' then
        (if 3 \<le> length s then
           (case index_of (map ascii_lower (take 3 s)) month_names of
              None \<Rightarrow> []
            | Some i \<Rightarrow> [(t\<lparr>tm_mon := Suc i\<rparr>, drop 3 s)])
         else [])
      else if d = CHR ''z'' then
        map (\<lambda>(off, r). (t\<lparr>tm_gmtoff := Some off\<rparr>, r)) (tz_offset s)
      else [])"

text \<open>A character of the format that is not part of a directive, at the data \<open>s\<close>: the
  data that its matches leave.\<close>

definition lit_step :: "char \<Rightarrow> string \<Rightarrow> string list" where
  "lit_step c s =
     (if is_space c then
        map (\<lambda>k. drop k s) (rev [1 ..< Suc (length (takeWhile is_space s))])
      else (case s of
              [] \<Rightarrow> []
            | x # xs \<Rightarrow> if ascii_lower x = ascii_lower c then [xs] else []))"

fun sp_run :: "string \<Rightarrow> string \<Rightarrow> tm \<Rightarrow> (tm \<times> string) option" where
  "sp_run [] s t = Some (t, s)"
| "sp_run [c] s t =
     (if c = CHR ''%'' then None
      else first_some (map (\<lambda>r. sp_run [] r t) (lit_step c s)))"
| "sp_run (c # d # fmt) s t =
     (if c = CHR ''%'' then first_some (map (\<lambda>(t', r). sp_run fmt r t') (directive d t s))
      else if is_space c \<and> is_space d then sp_run (d # fmt) s t
      else first_some (map (\<lambda>r. sp_run (d # fmt) r t) (lit_step c s)))"

text \<open>The constructor of \<^verbatim>\<open>datetime\<close> and that of \<^verbatim>\<open>timezone\<close> check their arguments.\<close>

definition make_datetime :: "tm \<Rightarrow> datetime option" where
  "make_datetime t =
     (if 1 \<le> tm_year t \<and> tm_year t \<le> 9999 \<and> 1 \<le> tm_mon t \<and> tm_mon t \<le> 12
         \<and> 1 \<le> tm_mday t \<and> tm_mday t \<le> days_in_month (tm_year t) (tm_mon t)
         \<and> tm_hour t \<le> 23 \<and> tm_min t \<le> 59 \<and> tm_sec t \<le> 59 \<and> tm_usec t \<le> 999999
         \<and> (case tm_gmtoff t of None \<Rightarrow> True | Some off \<Rightarrow> - 86400 < off \<and> off < 86400)
      then Some \<lparr>year = tm_year t, month = tm_mon t, day = tm_mday t, hour = tm_hour t,
                 minute = tm_min t, second = tm_sec t, microsecond = tm_usec t,
                 tzinfo = tm_gmtoff t\<rparr>
      else None)"

definition strptime :: strptime_fn where
  "strptime data_string fmt =
     (case sp_run fmt data_string
             \<lparr>tm_year = 1900, tm_mon = 1, tm_mday = 1, tm_hour = 0, tm_min = 0, tm_sec = 0,
              tm_usec = 0, tm_gmtoff = None\<rparr> of
        None \<Rightarrow> None
      | Some (t, rest) \<Rightarrow> if rest \<noteq> [] then None else make_datetime t)"

section \<open>Entries and the line parser\<close>

text \<open>
  An entry is a dictionary with a fixed vocabulary of keys; a field of the record is
  \<open>None\<close> when the dictionary has no such key. The keys \<^verbatim>\<open>timestamp\<close>, \<^verbatim>\<open>referer\<close> and
  \<^verbatim>\<open>user_agent\<close> may be present with the value \<^verbatim>\<open>None\<close>: this is \<open>Some None\<close>. The key
  \<^verbatim>\<open>method\<close> is the field \<open>req_method\<close>.
\<close>

record entry =
  raw_line :: string
  parsed :: bool
  line_number :: "nat option"
  format :: "string option"
  ip :: "string option"
  timestamp :: "datetime option option"
  request :: "string option"
  status :: "int option"
  size :: "int option"
  req_method :: "string option"
  path :: "string option"
  protocol :: "string option"
  referer :: "string option option"
  user_agent :: "string option option"
  level :: "string option"
  message :: "string option"

text \<open>\<^verbatim>\<open>{'raw_line': line, 'parsed': False}\<close>\<close>

definition unparsed :: "string \<Rightarrow> entry" where
  "unparsed line =
     \<lparr>raw_line = line, parsed = False, line_number = None, format = None, ip = None,
      timestamp = None, request = None, status = None, size = None, req_method = None,
      path = None, protocol = None, referer = None, user_agent = None, level = None,
      message = None\<rparr>"

text \<open>\<^verbatim>\<open>groups[i]\<close> on the tuple of the groups.\<close>

definition tuple_get :: "'a list \<Rightarrow> nat \<Rightarrow> exn + 'a" where
  "tuple_get xs i = (if i < length xs then Inr (xs ! i) else Inl IndexError)"

definition str_isdigit :: "string \<Rightarrow> bool" where
  "str_isdigit s = (s \<noteq> [] \<and> list_all is_digit_char s)"

text \<open>
  \<^verbatim>\<open>int(s)\<close> on a string for which \<^verbatim>\<open>s.isdigit()\<close> holds, the only strings the program
  converts: the number in base ten when every character is a decimal digit, and
  \<^verbatim>\<open>ValueError\<close> otherwise (a superscript digit is a digit and not a decimal). Integers are
  unbounded, and the conversion of a string to an integer is not: the interpreter refuses a
  string of more than \<open>int_max_str_digits\<close> digits, leading zeros counted, with
  \<^verbatim>\<open>ValueError\<close>. The bound is the default of \<^verbatim>\<open>sys.get_int_max_str_digits()\<close>.
\<close>

definition int_max_str_digits :: nat where
  "int_max_str_digits = 4300"

definition py_int :: "string \<Rightarrow> exn + int" where
  "py_int s =
     (if s \<noteq> [] \<and> list_all is_decimal s \<and> length s \<le> int_max_str_digits
      then Inr (int (decimal_val s)) else Inl ValueError)"

text \<open>\<^verbatim>\<open>s.split()\<close>: the maximal runs of characters that are not whitespace; \<open>w\<close> is the
  run being read, in reverse.\<close>

fun split_acc :: "string \<Rightarrow> string \<Rightarrow> string list" where
  "split_acc [] w = (if w = [] then [] else [rev w])"
| "split_acc (c # cs) w =
     (if is_space c then (if w = [] then split_acc cs [] else rev w # split_acc cs [])
      else split_acc cs (c # w))"

definition split :: "string \<Rightarrow> string list" where
  "split s = split_acc s []"

definition extract_fields ::
  "strptime_fn \<Rightarrow> string list \<Rightarrow> string \<Rightarrow> string \<Rightarrow> exn + entry" where
  "extract_fields sp groups format_name line =
     (let entry = (unparsed line)\<lparr>parsed := True, format := Some format_name\<rparr>
      in if format_name \<in> set [''apache'', ''nginx'', ''common'', ''combined''] then
           rbind (tuple_get groups 0) (\<lambda>g0.
           rbind (tuple_get groups 1) (\<lambda>g1.
           rbind (tuple_get groups 2) (\<lambda>g2.
           rbind (tuple_get groups 3) (\<lambda>g3.
           rbind (if str_isdigit g3 then py_int g3 else Inr 0) (\<lambda>st.
           rbind (tuple_get groups 4) (\<lambda>g4.
           rbind (if str_isdigit g4 then py_int g4 else Inr 0) (\<lambda>sz.
             let entry = entry\<lparr>ip := Some g0, timestamp := Some (parse_timestamp sp g1),
                               request := Some g2, status := Some st, size := Some sz\<rparr>;
                 request_parts = split g2;
                 entry =
                   (if length request_parts \<ge> 2 then
                      entry\<lparr>req_method := Some (request_parts ! 0),
                            path := Some (request_parts ! 1),
                            protocol := Some (if length request_parts > 2
                                              then request_parts ! 2 else ''HTTP/1.1'')\<rparr>
                    else entry)
             in if format_name \<in> set [''nginx'', ''combined''] \<and> length groups > 5 then
                  rbind (tuple_get groups 5) (\<lambda>g5.
                  rbind (if length groups > 6
                         then rbind (tuple_get groups 6) (\<lambda>g6. Inr (Some g6))
                         else Inr None) (\<lambda>ua.
                    Inr (entry\<lparr>referer := Some (if g5 \<noteq> ''-'' then Some g5 else None),
                               user_agent := Some ua\<rparr>)))
                else Inr entry)))))))
         else if format_name = ''custom'' then
           rbind (tuple_get groups 0) (\<lambda>g0.
           rbind (tuple_get groups 1) (\<lambda>g1.
           rbind (tuple_get groups 2) (\<lambda>g2.
             Inr (entry\<lparr>timestamp := Some (parse_timestamp sp g0), level := Some g1,
                        message := Some g2\<rparr>))))
         else Inr entry)"

text \<open>The loop of the automatic detection, over the items of the table in their order:
  the first pattern that matches gives the entry.\<close>

fun auto_detect :: "strptime_fn \<Rightarrow> (string \<times> regex) list \<Rightarrow> string \<Rightarrow> (exn + entry) option" where
  "auto_detect sp [] line = None"
| "auto_detect sp ((format_name, pattern) # ps) line =
     (case re_match pattern line of
        Some groups \<Rightarrow> Some (extract_fields sp groups format_name line)
      | None \<Rightarrow> auto_detect sp ps line)"

definition parse_log_line :: "strptime_fn \<Rightarrow> string \<Rightarrow> string \<Rightarrow> exn + entry" where
  "parse_log_line sp line log_format =
     (case (if log_format = ''auto'' then auto_detect sp log_patterns line
            else (case map_of log_patterns log_format of
                    None \<Rightarrow> None
                  | Some pattern \<Rightarrow>
                      (case re_match pattern line of
                         Some groups \<Rightarrow> Some (extract_fields sp groups log_format line)
                       | None \<Rightarrow> None)))
      of Some r \<Rightarrow> r
       | None \<Rightarrow> Inr (unparsed line))"

section \<open>Aggregation\<close>

text \<open>
  \<^verbatim>\<open>Counter(xs)\<close> counts the elements of \<open>xs\<close> one after the other in a dictionary, which
  keeps its keys in the order of their insertion: \<^verbatim>\<open>d[x] = d.get(x, 0) + 1\<close>.
\<close>

definition counter_add :: "('a \<times> nat) list \<Rightarrow> 'a \<Rightarrow> ('a \<times> nat) list" where
  "counter_add d x = AList.update x ((case map_of d x of None \<Rightarrow> 0 | Some c \<Rightarrow> c) + 1) d"

definition Counter :: "'a list \<Rightarrow> ('a \<times> nat) list" where
  "Counter xs = foldl counter_add [] xs"

text \<open>
  \<^verbatim>\<open>most_common()\<close> sorts the items by decreasing count with a stable sort, so that items of
  equal count keep the order of the dictionary; \<^verbatim>\<open>most_common(n)\<close> is the first \<open>n\<close> items of
  that list (the library documents \<^verbatim>\<open>heapq.nlargest\<close>, which it calls, as equal to the
  sorted list cut at \<open>n\<close>).
\<close>

definition most_common_all :: "('a \<times> nat) list \<Rightarrow> ('a \<times> nat) list" where
  "most_common_all d = sort_key (\<lambda>kc. - int (snd kc)) d"

definition most_common :: "nat \<Rightarrow> ('a \<times> nat) list \<Rightarrow> ('a \<times> nat) list" where
  "most_common n d = take n (most_common_all d)"

text \<open>
  \<^verbatim>\<open>min(xs)\<close> and \<^verbatim>\<open>max(xs)\<close>: the first element is the candidate, every further element
  replaces it when \<^verbatim>\<open>x < candidate\<close> (for \<^verbatim>\<open>max\<close>: \<^verbatim>\<open>x > candidate\<close>); a comparison that
  raises ends the loop with its exception.
\<close>

fun py_min_from :: "('a \<Rightarrow> 'a \<Rightarrow> exn + bool) \<Rightarrow> 'a \<Rightarrow> 'a list \<Rightarrow> exn + 'a" where
  "py_min_from lt m [] = Inr m"
| "py_min_from lt m (x # xs) =
     (case lt x m of
        Inl e \<Rightarrow> Inl e
      | Inr b \<Rightarrow> py_min_from lt (if b then x else m) xs)"

fun py_max_from :: "('a \<Rightarrow> 'a \<Rightarrow> exn + bool) \<Rightarrow> 'a \<Rightarrow> 'a list \<Rightarrow> exn + 'a" where
  "py_max_from lt m [] = Inr m"
| "py_max_from lt m (x # xs) =
     (case lt m x of
        Inl e \<Rightarrow> Inl e
      | Inr b \<Rightarrow> py_max_from lt (if b then x else m) xs)"

definition py_min :: "('a \<Rightarrow> 'a \<Rightarrow> exn + bool) \<Rightarrow> 'a list \<Rightarrow> exn + 'a" where
  "py_min lt xs = (case xs of [] \<Rightarrow> Inl ValueError | x # xs' \<Rightarrow> py_min_from lt x xs')"

definition py_max :: "('a \<Rightarrow> 'a \<Rightarrow> exn + bool) \<Rightarrow> 'a list \<Rightarrow> exn + 'a" where
  "py_max lt xs = (case xs of [] \<Rightarrow> Inl ValueError | x # xs' \<Rightarrow> py_max_from lt x xs')"

definition int_less :: "int \<Rightarrow> int \<Rightarrow> exn + bool" where
  "int_less a b = Inr (a < b)"

text \<open>
  \<^verbatim>\<open>parse_rate\<close> and \<^verbatim>\<open>avg_size\<close> are floating-point numbers. A floating-point number is the
  rational number it stands for, and the rounding of an exact result to the nearest
  floating-point number is a function \<open>fl\<close>, which \<^verbatim>\<open>analyze_entries\<close> takes as an argument:
  what is proved of the arithmetic holds for every rounding with the properties that the
  theorem names. \<^verbatim>\<open>a / b\<close> on two integers is the rounded quotient; it raises
  \<^verbatim>\<open>ZeroDivisionError\<close> when \<open>b\<close> is zero and \<^verbatim>\<open>OverflowError\<close> when the quotient rounds beyond
  the largest floating-point number, that is when its absolute value is at least
  \<open>2 ^ 1024 - 2 ^ 970\<close>. \<^verbatim>\<open>x * 100\<close> on a floating-point number is the rounded product.
\<close>

type_synonym rounding = "rat \<Rightarrow> rat"

definition py_truediv :: "rounding \<Rightarrow> int \<Rightarrow> int \<Rightarrow> exn + rat" where
  "py_truediv fl a b =
     (if b = 0 then Inl ZeroDivisionError
      else if \<bar>of_int a / of_int b :: rat\<bar> \<ge> 2 ^ 1024 - 2 ^ 970 then Inl OverflowError
      else Inr (fl (of_int a / of_int b)))"

definition float_mul :: "rounding \<Rightarrow> rat \<Rightarrow> rat \<Rightarrow> rat" where
  "float_mul fl x y = fl (x * y)"

text \<open>
  The result of \<^verbatim>\<open>analyze_entries\<close> is a dictionary; a field is \<open>None\<close> when the key is
  absent. \<^verbatim>\<open>duration\<close> is the difference of the two instants in microseconds, which the
  source renders as text.
\<close>

record response_sizes =
  total_bytes :: int
  avg_size :: rat
  max_size :: int
  min_size :: int

record time_range =
  range_start :: datetime
  range_end :: datetime
  duration :: int

record analysis =
  total_entries :: "nat option"
  parsed_entries :: "nat option"
  parse_rate :: "rat option"
  top_ips :: "(string \<times> nat) list option"
  unique_ips :: "nat option"
  status_codes :: "(int \<times> nat) list option"
  http_methods :: "(string \<times> nat) list option"
  top_paths :: "(string \<times> nat) list option"
  response_sizes :: "response_sizes option"
  time_range :: "time_range option"
  traffic_by_hour :: "(nat \<times> nat) list option"

text \<open>The empty dictionary \<^verbatim>\<open>{}\<close>.\<close>

definition empty_analysis :: analysis where
  "empty_analysis =
     \<lparr>total_entries = None, parsed_entries = None, parse_rate = None, top_ips = None,
      unique_ips = None, status_codes = None, http_methods = None, top_paths = None,
      response_sizes = None, time_range = None, traffic_by_hour = None\<rparr>"

text \<open>\<^verbatim>\<open>[e['timestamp'] for e in .. if 'timestamp' in e and e['timestamp']]\<close>\<close>

definition timestamp_of :: "entry \<Rightarrow> datetime option" where
  "timestamp_of e = (case timestamp e of Some (Some t) \<Rightarrow> Some t | _ \<Rightarrow> None)"

definition analyze_entries :: "rounding \<Rightarrow> entry list \<Rightarrow> exn + analysis" where
  "analyze_entries fl entries =
     (if entries = [] then Inr empty_analysis
      else
        let parsed_list = filter parsed entries
        in rbind (if entries \<noteq> []
                  then rbind (py_truediv fl (int (length parsed_list)) (int (length entries)))
                             (\<lambda>q. Inr (float_mul fl q 100))
                  else Inr 0) (\<lambda>rate.
        let analysis = empty_analysis
              \<lparr>total_entries := Some (length entries),
               parsed_entries := Some (length parsed_list),
               parse_rate := Some rate\<rparr>
        in if parsed_list \<noteq> [] then
             let ips = List.map_filter ip parsed_list;
                 analysis = analysis\<lparr>top_ips := Some (most_common 10 (Counter ips)),
                                     unique_ips := Some (length (remdups ips))\<rparr>;
                 codes = filter (\<lambda>c. c \<noteq> 0) (List.map_filter status parsed_list);
                 analysis = analysis\<lparr>status_codes := Some (most_common_all (Counter codes))\<rparr>;
                 methods = List.map_filter req_method parsed_list;
                 analysis = analysis\<lparr>http_methods := Some (most_common_all (Counter methods))\<rparr>;
                 paths = List.map_filter path parsed_list;
                 analysis = analysis\<lparr>top_paths := Some (most_common 10 (Counter paths))\<rparr>;
                 sizes = filter (\<lambda>z. z \<noteq> 0) (List.map_filter size parsed_list)
             in rbind (if sizes \<noteq> [] then
                         rbind (py_truediv fl (sum_list sizes) (int (length sizes))) (\<lambda>avg.
                         rbind (py_max int_less sizes) (\<lambda>mx.
                         rbind (py_min int_less sizes) (\<lambda>mn.
                           Inr (analysis\<lparr>response_sizes := Some
                                  \<lparr>total_bytes = sum_list sizes, avg_size = avg,
                                   max_size = mx, min_size = mn\<rparr>\<rparr>))))
                       else Inr analysis) (\<lambda>analysis.
                let timestamps = List.map_filter timestamp_of parsed_list
                in if timestamps \<noteq> [] then
                     rbind (py_min dt_less timestamps) (\<lambda>mn.
                     rbind (py_max dt_less timestamps) (\<lambda>mx.
                     rbind (py_max dt_less timestamps) (\<lambda>mx'.
                     rbind (py_min dt_less timestamps) (\<lambda>mn'.
                     rbind (dt_sub mx' mn') (\<lambda>dur.
                       Inr (analysis
                              \<lparr>time_range := Some \<lparr>range_start = mn, range_end = mx,
                                                   duration = dur\<rparr>,
                               traffic_by_hour :=
                                 Some (most_common_all (Counter (map hour timestamps)))\<rparr>))))))
                   else Inr analysis)
           else Inr analysis))"

section \<open>Anomalies\<close>

text \<open>
  \<^verbatim>\<open>str(n)\<close> for an integer, as the f-strings of the messages render it. The interpreter
  renders an integer of at most \<open>int_max_str_digits\<close> digits, and every integer that
  \<^verbatim>\<open>int\<close> has returned is one; \<open>str_int\<close> renders every integer.
\<close>

function str_nat :: "nat \<Rightarrow> string" where
  "str_nat n =
     (if n < 10 then [''0123456789'' ! n]
      else str_nat (n div 10) @ [''0123456789'' ! (n mod 10)])"
  by pat_completeness auto
termination
  by (relation "measure id") auto

definition str_int :: "int \<Rightarrow> string" where
  "str_int i = (if i < 0 then ''-'' @ str_nat (nat (- i)) else str_nat (nat i))"

record anomaly =
  a_type :: string
  a_severity :: string
  a_message :: string
  a_entry :: entry

text \<open>\<^verbatim>\<open>entry[key]\<close>: \<^verbatim>\<open>KeyError\<close> when the key is absent.\<close>

definition subscript :: "'a option \<Rightarrow> exn + 'a" where
  "subscript v = (case v of None \<Rightarrow> Inl KeyError | Some x \<Rightarrow> Inr x)"

text \<open>\<^verbatim>\<open>entry.get(key, default)\<close>\<close>

definition get_or :: "'a option \<Rightarrow> 'a \<Rightarrow> 'a" where
  "get_or v d = (case v of None \<Rightarrow> d | Some x \<Rightarrow> x)"

text \<open>
  The seven suspicious patterns are literal texts, the first one followed by \<^verbatim>\<open>$\<close>; a
  pattern is the text and whether \<^verbatim>\<open>$\<close> follows:
  \<^verbatim>\<open>[r'\.php$', r'admin', r'wp-admin', r'\.env', r'backup', r'config', r'\.git']\<close>.
\<close>

definition suspicious_patterns :: "(string \<times> bool) list" where
  "suspicious_patterns =
     [(''.php'', True), (''admin'', False), (''wp-admin'', False), (''.env'', False),
      (''backup'', False), (''config'', False), (''.git'', False)]"

text \<open>\<^verbatim>\<open>$\<close> matches at the end of the subject and before a newline that ends it.\<close>

definition at_dollar :: "string \<Rightarrow> bool" where
  "at_dollar rest = (rest = [] \<or> rest = [CHR 0x0A])"

definition match_here :: "string \<times> bool \<Rightarrow> string \<Rightarrow> bool" where
  "match_here p s =
     (length (fst p) \<le> length s
      \<and> map ascii_lower (take (length (fst p)) s) = map ascii_lower (fst p)
      \<and> (snd p \<longrightarrow> at_dollar (drop (length (fst p)) s)))"

text \<open>\<^verbatim>\<open>re.search(pattern, path, re.IGNORECASE)\<close>: a match at some position of the path.\<close>

fun re_search :: "string \<times> bool \<Rightarrow> string \<Rightarrow> bool" where
  "re_search p [] = match_here p []"
| "re_search p (c # cs) = (match_here p (c # cs) \<or> re_search p cs)"

text \<open>The loop over the patterns, which ends at the first pattern found in the path.\<close>

fun scan_patterns :: "(string \<times> bool) list \<Rightarrow> entry \<Rightarrow> string \<Rightarrow> anomaly list" where
  "scan_patterns [] e p = []"
| "scan_patterns (pattern # ps) e p =
     (if re_search pattern p then
        [\<lparr>a_type = ''suspicious_path'', a_severity = ''high'',
          a_message = ''Suspicious path access: '' @ p, a_entry = e\<rparr>]
      else scan_patterns ps e p)"

text \<open>The body of the loop of \<^verbatim>\<open>detect_anomalies\<close>: the anomalies that one entry adds.\<close>

definition detect_entry :: "entry \<Rightarrow> exn + anomaly list" where
  "detect_entry e =
     (if \<not> parsed e then Inr []
      else
        rbind (if get_or (status e) 0 \<ge> 400 then
                 rbind (subscript (status e)) (\<lambda>s.
                   Inr [\<lparr>a_type = ''error_status'',
                         a_severity = (if s \<ge> 500 then ''high'' else ''medium''),
                         a_message = ''HTTP '' @ str_int s @ '' from ''
                                     @ get_or (ip e) ''unknown'',
                         a_entry = e\<rparr>])
               else Inr []) (\<lambda>a1.
        rbind (if get_or (size e) 0 > 10 * 1024 * 1024 then
                 rbind (subscript (size e)) (\<lambda>z.
                   Inr [\<lparr>a_type = ''large_response'', a_severity = ''medium'',
                         a_message = ''Large response '' @ str_int z @ '' bytes'',
                         a_entry = e\<rparr>])
               else Inr []) (\<lambda>a2.
          Inr (a1 @ a2 @ scan_patterns suspicious_patterns e (get_or (path e) '''')))))"

fun detect_loop :: "anomaly list \<Rightarrow> entry list \<Rightarrow> exn + anomaly list" where
  "detect_loop anomalies [] = Inr anomalies"
| "detect_loop anomalies (e # es) =
     (case detect_entry e of
        Inl x \<Rightarrow> Inl x
      | Inr new \<Rightarrow> detect_loop (anomalies @ new) es)"

definition detect_anomalies :: "entry list \<Rightarrow> exn + anomaly list" where
  "detect_anomalies entries = detect_loop [] entries"

section \<open>Notions used to state the properties\<close>

text \<open>
  \<open>rests p s\<close> lists, for every way in which the pattern \<open>p\<close> matches at the start of
  \<open>s\<close>, what the match leaves of \<open>s\<close>. The matcher \<open>run\<close> returns the first of these
  matches; \<open>rests\<close> serves to speak of the existence of a match.
\<close>

fun rests :: "regex \<Rightarrow> string \<Rightarrow> string list" where
  "rests [] s = [s]"
| "rests (Lit c # p) s = (case s of [] \<Rightarrow> [] | x # xs \<Rightarrow> if x = c then rests p xs else [])"
| "rests (GreedyPlus cc # p) s =
     concat (map (\<lambda>k. rests p (drop k s)) (rev [1 ..< Suc (length (takeWhile (in_class cc) s))]))"
| "rests (LazyStar cc # p) s =
     concat (map (\<lambda>k. rests p (drop k s)) [0 ..< Suc (length (takeWhile (in_class cc) s))])"
| "rests (Repeat n cc # p) s =
     (if n \<le> length s \<and> list_all (in_class cc) (take n s) then rests p (drop n s) else [])"
| "rests (GOpen # p) s = rests p s"
| "rests (GClose # p) s = rests p s"
| "rests (Eos # p) s = (if s = [] then rests p s else [])"

text \<open>\<^verbatim>\<open>re.fullmatch(pattern, s)\<close>: a match of the pattern that ends where \<open>s\<close> ends.\<close>

definition fullmatch :: "regex \<Rightarrow> string \<Rightarrow> string list option" where
  "fullmatch p s = re_match (p @ [Eos]) s"

text \<open>The numbers of the open groups are numbers of groups.\<close>

definition stack_ok :: "(nat \<times> string) list \<Rightarrow> string list \<Rightarrow> bool" where
  "stack_ok st gs = (\<forall>j \<in> fst ` set st. j < length gs)"

text \<open>
  The fields of an entry of a web format (\<^verbatim>\<open>method\<close>, \<^verbatim>\<open>path\<close> and \<^verbatim>\<open>protocol\<close> come
  together or not at all), the fields of an entry of the custom format, and the fields that
  the format tag of an entry announces.
\<close>

definition web_fields :: "entry \<Rightarrow> bool" where
  "web_fields e =
     (ip e \<noteq> None \<and> timestamp e \<noteq> None \<and> request e \<noteq> None \<and> status e \<noteq> None
      \<and> size e \<noteq> None
      \<and> ((req_method e = None \<and> path e = None \<and> protocol e = None)
          \<or> (req_method e \<noteq> None \<and> path e \<noteq> None \<and> protocol e \<noteq> None))
      \<and> level e = None \<and> message e = None)"

definition custom_fields :: "entry \<Rightarrow> bool" where
  "custom_fields e =
     (timestamp e \<noteq> None \<and> level e \<noteq> None \<and> message e \<noteq> None
      \<and> ip e = None \<and> request e = None \<and> status e = None \<and> size e = None
      \<and> req_method e = None \<and> path e = None \<and> protocol e = None
      \<and> referer e = None \<and> user_agent e = None)"

definition format_fields :: "entry \<Rightarrow> bool" where
  "format_fields e =
     (if format e = Some ''apache'' \<or> format e = Some ''common''
      then web_fields e \<and> referer e = None \<and> user_agent e = None
      else if format e = Some ''nginx'' \<or> format e = Some ''combined''
      then web_fields e \<and> referer e \<noteq> None \<and> user_agent e \<noteq> None
      else format e = Some ''custom'' \<and> custom_fields e)"

text \<open>
  The extraction of the groups \<open>gs\<close> under the name \<open>name\<close> returns an entry: a parsed
  entry of the line, tagged with that name, with the keys of its format and no line number.
\<close>

definition extracted ::
  "strptime_fn \<Rightarrow> string list \<Rightarrow> string \<Rightarrow> string \<Rightarrow> bool" where
  "extracted sp gs name line =
     (\<exists>e. extract_fields sp gs name line = Inr e \<and> parsed e \<and> format e = Some name
          \<and> raw_line e = line \<and> line_number e = None \<and> format_fields e)"

text \<open>Lines and entries of the examples, and the equations that evaluate the model of strptime.\<close>

definition scenario1_line :: string where
  "scenario1_line =
     ''10.0.0.1 - - [10/Oct/2024:13:55:36 -0700] \"GET /index.html HTTP/1.1\" 200 512''"

definition combined_line :: string where
  "combined_line =
     ''10.0.0.1 - - [10/Oct/2024:13:55:36 -0700] \"GET /index.html HTTP/1.1\" 200 512 \"-\" \"Mozilla/5.0\"''"

lemmas strptime_eval = strptime_def directive_def two_digits_def one_digit_def lit_step_def
  month_names_def ascii_lower_def make_datetime_def days_in_month_def is_leap_def tz_offset_def
  parse_timestamp_def timestamp_formats_def

definition trailing_line :: string where
  "trailing_line =
     ''10.0.0.1 - - [10/Oct/2024:13:55:36 -0700] \"GET /index.html HTTP/1.1\" 200 512 and more text''"

text \<open>
  A line that the apache pattern matches and whose size capture is a run of 4301 digits, one
  more than the integer conversion accepts.
\<close>

definition long_line :: string where
  "long_line = ''1.1.1.1 - - [x] \"GET /\" 200 '' @ replicate 4301 CHR ''1''"

text \<open>
  The anomalies that the body of the loop of \<^verbatim>\<open>detect_anomalies\<close> adds for one entry, and the
  entries of scenarios 3 and 5.
\<close>

definition entry_anomalies :: "entry \<Rightarrow> anomaly list" where
  "entry_anomalies e = (case detect_entry e of Inl x \<Rightarrow> [] | Inr new \<Rightarrow> new)"

definition scenario5_entry :: entry where
  "scenario5_entry =
     (unparsed ''1.2.3.4 - - [x] \"GET /wp-admin/config.php\" 200 5'')
       \<lparr>parsed := True, format := Some ''apache'', ip := Some ''1.2.3.4'',
        timestamp := Some None, request := Some ''GET /wp-admin/config.php'',
        status := Some 200, size := Some 5, req_method := Some ''GET'',
        path := Some ''/wp-admin/config.php'', protocol := Some ''HTTP/1.1''\<rparr>"

definition scenario3_entry :: entry where
  "scenario3_entry =
     (unparsed ''1.2.3.4 - - [x] \"GET /\" 503 5'')
       \<lparr>parsed := True, format := Some ''apache'', ip := Some ''1.2.3.4'',
        timestamp := Some None, request := Some ''GET /'',
        status := Some 503, size := Some 5, req_method := Some ''GET'',
        path := Some ''/'', protocol := Some ''HTTP/1.1''\<rparr>"

section \<open>Properties of the matcher\<close>

lemma first_some_None: "first_some xs = None \<longleftrightarrow> (\<forall>x \<in> set xs. x = None)"
  by (induction xs rule: first_some.induct) auto

lemma first_some_Some: "first_some xs = Some y \<Longrightarrow> Some y \<in> set xs"
  by (induction xs rule: first_some.induct) auto

lemma run_None_iff: "run p s st gs = None \<longleftrightarrow> rests p s = []"
proof (induction p arbitrary: s st gs)
  case Nil
  then show ?case by simp
next
  case (Cons x p)
  show ?case
  proof (cases x)
    case (Lit c)
    then show ?thesis using Cons by (cases s) auto
  next
    case (GreedyPlus cc)
    then show ?thesis using Cons by (auto simp: first_some_None)
  next
    case (LazyStar cc)
    then show ?thesis using Cons by (auto simp: first_some_None)
  next
    case (Repeat n cc)
    then show ?thesis using Cons by auto
  next
    case GOpen
    then show ?thesis using Cons by auto
  next
    case GClose
    then show ?thesis using Cons by (cases st) auto
  next
    case Eos
    then show ?thesis using Cons by auto
  qed
qed

lemma rests_append: "set (rests (p @ q) s) = (\<Union>r \<in> set (rests p s). set (rests q r))"
proof (induction p arbitrary: s)
  case Nil
  then show ?case by simp
next
  case (Cons x p)
  show ?case
  proof (cases x)
    case (Lit c)
    then show ?thesis using Cons by (cases s) auto
  qed (use Cons in auto)
qed

lemma rests_suffix: "r \<in> set (rests p s) \<Longrightarrow> \<exists>pre. s = pre @ r"
proof (induction p arbitrary: s)
  case Nil
  then show ?case by simp
next
  case (Cons x p)
  have drop_case: "\<And>k. r \<in> set (rests p (drop k s)) \<Longrightarrow> \<exists>pre. s = pre @ r"
  proof -
    fix k assume "r \<in> set (rests p (drop k s))"
    then obtain pre where "drop k s = pre @ r" using Cons.IH by blast
    then have "s = (take k s @ pre) @ r" by (metis append_assoc append_take_drop_id)
    then show "\<exists>pre. s = pre @ r" by blast
  qed
  show ?case
  proof (cases x)
    case (Lit c)
    with Cons.prems obtain xs where s: "s = c # xs" and r: "r \<in> set (rests p xs)"
      by (cases s) (auto split: if_splits)
    from Cons.IH[OF r] obtain pre where "xs = pre @ r" by blast
    with s have "s = (c # pre) @ r" by simp
    then show ?thesis by blast
  next
    case (GreedyPlus cc)
    then show ?thesis using Cons.prems drop_case by auto
  next
    case (LazyStar cc)
    then show ?thesis using Cons.prems drop_case by auto
  next
    case (Repeat n cc)
    then show ?thesis using Cons.prems drop_case by (auto split: if_splits)
  next
    case GOpen
    then show ?thesis using Cons by auto
  next
    case GClose
    then show ?thesis using Cons by auto
  next
    case Eos
    then show ?thesis using Cons by (auto split: if_splits)
  qed
qed

lemma rests_length: "r \<in> set (rests p s) \<Longrightarrow> length r \<le> length s"
  using rests_suffix by fastforce

lemma takeWhile_length_append: "length (takeWhile P s) \<le> length (takeWhile P (s @ t))"
  by (induction s) auto

lemma takeWhile_append_le:
  assumes "k \<le> length s" and "k \<le> length (takeWhile P (s @ t))"
  shows "k \<le> length (takeWhile P s)"
proof (cases "\<forall>x \<in> set s. P x")
  case True
  then have eq: "takeWhile P s = s" by (simp add: takeWhile_eq_all_conv)
  show ?thesis unfolding eq using assms(1) .
next
  case False
  then obtain x where "x \<in> set s" "\<not> P x" by blast
  then have "takeWhile P (s @ t) = takeWhile P s" by (rule takeWhile_append1)
  then have "length (takeWhile P (s @ t)) = length (takeWhile P s)" by (rule arg_cong)
  with assms(2) show ?thesis by linarith
qed

lemma rests_GreedyPlus_iff:
  "r \<in> set (rests (GreedyPlus cc # p) s) \<longleftrightarrow>
     (\<exists>k. 1 \<le> k \<and> k \<le> length (takeWhile (in_class cc) s) \<and> r \<in> set (rests p (drop k s)))"
proof -
  have "set (rests (GreedyPlus cc # p) s)
          = (\<Union>k \<in> {1 ..< Suc (length (takeWhile (in_class cc) s))}. set (rests p (drop k s)))"
    by (simp del: upt_Suc)
  also have "{1 ..< Suc (length (takeWhile (in_class cc) s))}
                = {k. 1 \<le> k \<and> k \<le> length (takeWhile (in_class cc) s)}"
    by (simp only: atLeastLessThan_def atLeast_def lessThan_def less_Suc_eq_le Collect_conj_eq)
  finally show ?thesis by blast
qed

lemma rests_LazyStar_iff:
  "r \<in> set (rests (LazyStar cc # p) s) \<longleftrightarrow>
     (\<exists>k. k \<le> length (takeWhile (in_class cc) s) \<and> r \<in> set (rests p (drop k s)))"
proof -
  have "set (rests (LazyStar cc # p) s)
          = (\<Union>k \<in> {0 ..< Suc (length (takeWhile (in_class cc) s))}. set (rests p (drop k s)))"
    by (simp del: upt_Suc)
  also have "{0 ..< Suc (length (takeWhile (in_class cc) s))}
                = {k. k \<le> length (takeWhile (in_class cc) s)}"
    by (simp only: atLeastLessThan_def atLeast_def lessThan_def less_Suc_eq_le Collect_conj_eq) simp
  finally show ?thesis by blast
qed

lemma rests_extend:
  "Eos \<notin> set p \<Longrightarrow> r \<in> set (rests p s) \<Longrightarrow> r @ t \<in> set (rests p (s @ t))"
proof (induction p arbitrary: s)
  case Nil
  then show ?case by simp
next
  case (Cons x p)
  have noeos: "Eos \<notin> set p" using Cons.prems(1) by simp
  have step: "r @ t \<in> set (rests p (drop k (s @ t)))"
    if "k \<le> length s" and "r \<in> set (rests p (drop k s))" for k
  proof -
    have "drop k (s @ t) = drop k s @ t" using that(1) by simp
    then show ?thesis using Cons.IH[OF noeos that(2)] by (simp only:)
  qed
  show ?case
  proof (cases x)
    case (Lit c)
    with Cons.prems obtain xs where s: "s = c # xs" and r: "r \<in> set (rests p xs)"
      by (cases s) (auto split: if_splits)
    have "rests (x # p) (s @ t) = rests p (xs @ t)" unfolding Lit s by simp
    then show ?thesis using Cons.IH[OF noeos r] by (simp only:)
  next
    case (GreedyPlus cc)
    have "r \<in> set (rests (GreedyPlus cc # p) s)" using Cons.prems(2) unfolding GreedyPlus .
    then obtain k where k: "1 \<le> k" "k \<le> length (takeWhile (in_class cc) s)"
      and r: "r \<in> set (rests p (drop k s))" unfolding rests_GreedyPlus_iff by blast
    have kl: "k \<le> length s" using k(2) length_takeWhile_le[of "in_class cc" s] by linarith
    have "k \<le> length (takeWhile (in_class cc) (s @ t))"
      using k(2) takeWhile_length_append[of "in_class cc" s t] by linarith
    moreover have "r @ t \<in> set (rests p (drop k (s @ t)))" using step[OF kl r] .
    ultimately show ?thesis using k(1) unfolding GreedyPlus rests_GreedyPlus_iff by blast
  next
    case (LazyStar cc)
    have "r \<in> set (rests (LazyStar cc # p) s)" using Cons.prems(2) unfolding LazyStar .
    then obtain k where k: "k \<le> length (takeWhile (in_class cc) s)"
      and r: "r \<in> set (rests p (drop k s))" unfolding rests_LazyStar_iff by blast
    have kl: "k \<le> length s" using k length_takeWhile_le[of "in_class cc" s] by linarith
    have "k \<le> length (takeWhile (in_class cc) (s @ t))"
      using k takeWhile_length_append[of "in_class cc" s t] by linarith
    moreover have "r @ t \<in> set (rests p (drop k (s @ t)))" using step[OF kl r] .
    ultimately show ?thesis unfolding LazyStar rests_LazyStar_iff by blast
  next
    case (Repeat n cc)
    with Cons.prems have n: "n \<le> length s" "list_all (in_class cc) (take n s)"
      and r: "r \<in> set (rests p (drop n s))" by (auto split: if_splits)
    have "rests (x # p) (s @ t) = rests p (drop n (s @ t))" unfolding Repeat using n by simp
    then show ?thesis using step[OF n(1) r] by (simp only:)
  next
    case GOpen
    then have "r \<in> set (rests p s)" using Cons.prems(2) by simp
    from Cons.IH[OF noeos this] show ?thesis unfolding GOpen by simp
  next
    case GClose
    then have "r \<in> set (rests p s)" using Cons.prems(2) by simp
    from Cons.IH[OF noeos this] show ?thesis unfolding GClose by simp
  next
    case Eos
    then show ?thesis using Cons.prems(1) by simp
  qed
qed

lemma rests_restrict:
  "Eos \<notin> set p \<Longrightarrow> r' \<in> set (rests p (s @ t)) \<Longrightarrow> length t \<le> length r'
   \<Longrightarrow> \<exists>r. r' = r @ t \<and> r \<in> set (rests p s)"
proof (induction p arbitrary: s)
  case Nil
  then show ?case by simp
next
  case (Cons x p)
  have noeos: "Eos \<notin> set p" using Cons.prems(1) by simp
  have step: "k \<le> length s \<and> (\<exists>r. r' = r @ t \<and> r \<in> set (rests p (drop k s)))"
    if a: "r' \<in> set (rests p (drop k (s @ t)))" and b: "k \<le> length (s @ t)" for k
  proof -
    have "length r' \<le> length (drop k (s @ t))" using rests_length[OF a] .
    then have "length r' \<le> length s + length t - k" by simp
    with b Cons.prems(3) have kl: "k \<le> length s" by simp
    then have "drop k (s @ t) = drop k s @ t" by simp
    then have "r' \<in> set (rests p (drop k s @ t))" using a by (simp only:)
    from Cons.IH[OF noeos this Cons.prems(3)] kl show ?thesis by blast
  qed
  show ?case
  proof (cases x)
    case (Lit c)
    with Cons.prems(2) obtain xs where st: "s @ t = c # xs" and r: "r' \<in> set (rests p xs)"
      by (cases "s @ t") (auto split: if_splits)
    have "r' \<in> set (rests p (drop 1 (s @ t)))" "1 \<le> length (s @ t)" using st r by simp_all
    from step[OF this] obtain r0 where "1 \<le> length s" "r' = r0 @ t"
      "r0 \<in> set (rests p (drop 1 s))" by auto
    moreover then obtain s' where "s = c # s'" using st by (cases s) auto
    ultimately show ?thesis using Lit by auto
  next
    case (GreedyPlus cc)
    have "r' \<in> set (rests (GreedyPlus cc # p) (s @ t))" using Cons.prems(2) unfolding GreedyPlus .
    then obtain k where k: "1 \<le> k" "k \<le> length (takeWhile (in_class cc) (s @ t))"
      and r: "r' \<in> set (rests p (drop k (s @ t)))" unfolding rests_GreedyPlus_iff by blast
    have "k \<le> length (s @ t)" using k(2) length_takeWhile_le[of "in_class cc" "s @ t"] by linarith
    from step[OF r this] obtain r0 where kl: "k \<le> length s" and r0: "r' = r0 @ t"
      "r0 \<in> set (rests p (drop k s))" by auto
    have "k \<le> length (takeWhile (in_class cc) s)" using takeWhile_append_le[OF kl k(2)] .
    then show ?thesis using k(1) r0 unfolding GreedyPlus rests_GreedyPlus_iff by blast
  next
    case (LazyStar cc)
    have "r' \<in> set (rests (LazyStar cc # p) (s @ t))" using Cons.prems(2) unfolding LazyStar .
    then obtain k where k: "k \<le> length (takeWhile (in_class cc) (s @ t))"
      and r: "r' \<in> set (rests p (drop k (s @ t)))" unfolding rests_LazyStar_iff by blast
    have "k \<le> length (s @ t)" using k length_takeWhile_le[of "in_class cc" "s @ t"] by linarith
    from step[OF r this] obtain r0 where kl: "k \<le> length s" and r0: "r' = r0 @ t"
      "r0 \<in> set (rests p (drop k s))" by auto
    have "k \<le> length (takeWhile (in_class cc) s)" using takeWhile_append_le[OF kl k] .
    then show ?thesis using r0 unfolding LazyStar rests_LazyStar_iff by blast
  next
    case (Repeat n cc)
    with Cons.prems(2) have n: "list_all (in_class cc) (take n (s @ t))"
      and r: "r' \<in> set (rests p (drop n (s @ t)))" and nl: "n \<le> length (s @ t)"
      by (auto split: if_splits)
    from step[OF r nl] obtain r0 where kl: "n \<le> length s" and r0: "r' = r0 @ t"
      "r0 \<in> set (rests p (drop n s))" by auto
    then show ?thesis using Repeat n by auto
  next
    case GOpen
    then have "r' \<in> set (rests p (s @ t))" using Cons.prems(2) by simp
    from Cons.IH[OF noeos this Cons.prems(3)] show ?thesis unfolding GOpen by simp
  next
    case GClose
    then have "r' \<in> set (rests p (s @ t))" using Cons.prems(2) by simp
    from Cons.IH[OF noeos this Cons.prems(3)] show ?thesis unfolding GClose by simp
  next
    case Eos
    then show ?thesis using Cons.prems(1) by simp
  qed
qed

lemma re_match_iff_rests: "re_match p s \<noteq> None \<longleftrightarrow> (\<exists>r. r \<in> set (rests p s))"
  unfolding re_match_def run_None_iff by (cases "rests p s") auto

lemma fullmatch_iff: "fullmatch p s \<noteq> None \<longleftrightarrow> [] \<in> set (rests p s)"
  unfolding fullmatch_def re_match_iff_rests rests_append by (auto split: if_splits)

lemma re_match_prefix_iff:
  assumes "Eos \<notin> set p"
  shows "re_match p line \<noteq> None \<longleftrightarrow> (\<exists>pre rest. line = pre @ rest \<and> fullmatch p pre \<noteq> None)"
proof
  assume "re_match p line \<noteq> None"
  then obtain r where r: "r \<in> set (rests p line)" unfolding re_match_iff_rests by blast
  from rests_suffix[OF r] obtain pre where l: "line = pre @ r" by blast
  have "r \<in> set (rests p (pre @ r))" using r l by (simp only:)
  from rests_restrict[OF assms this] obtain r0 where "r = r0 @ r" "r0 \<in> set (rests p pre)"
    by auto
  then have "[] \<in> set (rests p pre)" by simp
  with l show "\<exists>pre rest. line = pre @ rest \<and> fullmatch p pre \<noteq> None"
    unfolding fullmatch_iff by blast
next
  assume "\<exists>pre rest. line = pre @ rest \<and> fullmatch p pre \<noteq> None"
  then obtain pre rest where l: "line = pre @ rest" and e: "[] \<in> set (rests p pre)"
    unfolding fullmatch_iff by blast
  from rests_extend[OF assms e, of rest] l have "rest \<in> set (rests p line)" by simp
  then show "re_match p line \<noteq> None" unfolding re_match_iff_rests by blast
qed

lemma rests_Lit_sub:
  assumes "in_class cc c"
  shows "set (rests (Lit c # q) s) \<subseteq> set (rests (GreedyPlus cc # q) s)"
proof
  fix r assume "r \<in> set (rests (Lit c # q) s)"
  then obtain xs where s: "s = c # xs" and r: "r \<in> set (rests q xs)"
    by (cases s) (auto split: if_splits)
  have "1 \<le> length (takeWhile (in_class cc) s)" using assms s by simp
  moreover have "r \<in> set (rests q (drop 1 s))" using r s by simp
  ultimately show "r \<in> set (rests (GreedyPlus cc # q) s)"
    unfolding rests_GreedyPlus_iff by blast
qed

lemma rests_mono_suffix:
  assumes "\<And>r. set (rests q1 r) \<subseteq> set (rests q2 r)"
  shows "set (rests (pre @ q1) s) \<subseteq> set (rests (pre @ q2) s)"
  unfolding rests_append using assms by blast

lemma rests_prefix_nonempty: "rests (p @ q) s \<noteq> [] \<Longrightarrow> rests p s \<noteq> []"
proof -
  assume "rests (p @ q) s \<noteq> []"
  then have "set (rests (p @ q) s) \<noteq> {}" by simp
  then have "set (rests p s) \<noteq> {}" unfolding rests_append by auto
  then show ?thesis by simp
qed

lemma re_match_prefix_pattern: "re_match (p @ q) s \<noteq> None \<Longrightarrow> re_match p s \<noteq> None"
  unfolding re_match_def run_None_iff by (rule rests_prefix_nonempty)

lemma common_sub_apache: "set (rests pat_common s) \<subseteq> set (rests pat_apache s)"
proof -
  let ?A = "grp [GreedyPlus NonSpace] @ lits '' ''"
  let ?B = "lits ''['' @ grp [LazyStar AnyChar] @ lits ''] \"''
     @ grp [LazyStar AnyChar] @ lits ''\" '' @ grp [GreedyPlus Digit] @ lits '' ''
     @ grp [GreedyPlus Digit]"
  have dash: "in_class NonSpace CHR ''-''" by (simp add: is_space_def)
  have c: "pat_common = ?A @ (Lit CHR ''-'' # (Lit CHR '' '' # Lit CHR ''-'' # Lit CHR '' '' # ?B))"
    by (simp add: pat_common_def lits_def grp_def)
  have m: "?A @ (GreedyPlus NonSpace # (Lit CHR '' '' # Lit CHR ''-'' # Lit CHR '' '' # ?B))
         = (?A @ [GreedyPlus NonSpace, Lit CHR '' '']) @ (Lit CHR ''-'' # (Lit CHR '' '' # ?B))"
    by simp
  have a: "pat_apache = (?A @ [GreedyPlus NonSpace, Lit CHR '' ''])
                        @ (GreedyPlus NonSpace # (Lit CHR '' '' # ?B))"
    by (simp add: pat_apache_def lits_def grp_def)
  have "set (rests pat_common s)
          \<subseteq> set (rests (?A @ (GreedyPlus NonSpace # (Lit CHR '' '' # Lit CHR ''-'' # Lit CHR '' '' # ?B))) s)"
    unfolding c by (rule rests_mono_suffix) (rule rests_Lit_sub[OF dash])
  also have "\<dots> \<subseteq> set (rests pat_apache s)"
    unfolding m a by (rule rests_mono_suffix) (rule rests_Lit_sub[OF dash])
  finally show ?thesis .
qed

lemma common_imp_apache: "re_match pat_common s \<noteq> None \<Longrightarrow> re_match pat_apache s \<noteq> None"
  unfolding re_match_iff_rests using common_sub_apache by blast

lemma nginx_imp_common: "re_match pat_nginx s \<noteq> None \<Longrightarrow> re_match pat_common s \<noteq> None"
proof -
  have "pat_nginx = pat_common @ (lits '' \"'' @ grp [LazyStar AnyChar] @ lits ''\" \"''
     @ grp [LazyStar AnyChar] @ lits ''\"'')"
    by (simp add: pat_nginx_def pat_common_def)
  then show "re_match pat_nginx s \<noteq> None \<Longrightarrow> re_match pat_common s \<noteq> None"
    using re_match_prefix_pattern by metis
qed

lemma combined_eq_nginx: "pat_combined = pat_nginx"
  by (simp add: pat_combined_def pat_nginx_def)

lemma first_some_SomeE:
  assumes "first_some (map f ks) = Some y"
  obtains k where "k \<in> set ks" "f k = Some y"
  using first_some_Some[OF assms] by auto

lemma run_GreedyPlusE:
  assumes "run (GreedyPlus cc # p) s st gs = Some gs'"
  obtains k where "1 \<le> k" "k \<le> length (takeWhile (in_class cc) s)"
    "run p (drop k s) st gs = Some gs'"
proof -
  from assms have "first_some (map (\<lambda>k. run p (drop k s) st gs)
                     (rev [1 ..< Suc (length (takeWhile (in_class cc) s))])) = Some gs'"
    by (simp only: run.simps)
  then obtain k where "k \<in> set (rev [1 ..< Suc (length (takeWhile (in_class cc) s))])"
    and r: "run p (drop k s) st gs = Some gs'" by (rule first_some_SomeE)
  then have "1 \<le> k" "k \<le> length (takeWhile (in_class cc) s)" by (simp_all del: upt_Suc)
  then show ?thesis using r by (rule that)
qed

lemma run_LazyStarE:
  assumes "run (LazyStar cc # p) s st gs = Some gs'"
  obtains k where "k \<le> length (takeWhile (in_class cc) s)"
    "run p (drop k s) st gs = Some gs'"
proof -
  from assms have "first_some (map (\<lambda>k. run p (drop k s) st gs)
                     [0 ..< Suc (length (takeWhile (in_class cc) s))]) = Some gs'"
    by (simp only: run.simps)
  then obtain k where "k \<in> set [0 ..< Suc (length (takeWhile (in_class cc) s))]"
    and r: "run p (drop k s) st gs = Some gs'" by (rule first_some_SomeE)
  then have "k \<le> length (takeWhile (in_class cc) s)" by (simp del: upt_Suc)
  with r show ?thesis by (rule that[rotated])
qed

lemma run_length: "run p s st gs = Some gs' \<Longrightarrow> length gs' = length gs + count_list p GOpen"
proof (induction p arbitrary: s st gs)
  case Nil
  then show ?case by simp
next
  case (Cons x p)
  show ?case
  proof (cases x)
    case (Lit c)
    then show ?thesis using Cons by (cases s) (auto split: if_splits)
  next
    case (GreedyPlus cc)
    with Cons.prems obtain k where "run p (drop k s) st gs = Some gs'"
      by (blast elim: run_GreedyPlusE run_LazyStarE)
    from Cons.IH[OF this] show ?thesis using GreedyPlus by simp
  next
    case (LazyStar cc)
    with Cons.prems obtain k where "run p (drop k s) st gs = Some gs'"
      by (blast elim: run_GreedyPlusE run_LazyStarE)
    from Cons.IH[OF this] show ?thesis using LazyStar by simp
  next
    case (Repeat n cc)
    then show ?thesis using Cons by (auto split: if_splits)
  next
    case GOpen
    then show ?thesis using Cons by auto
  next
    case GClose
    then show ?thesis using Cons by (cases st) auto
  next
    case Eos
    then show ?thesis using Cons by (auto split: if_splits)
  qed
qed

lemma run_preserve:
  "run p s st gs = Some gs' \<Longrightarrow> i < length gs \<Longrightarrow> i \<notin> fst ` set st \<Longrightarrow> gs' ! i = gs ! i"
proof (induction p arbitrary: s st gs)
  case Nil
  then show ?case by simp
next
  case (Cons x p)
  show ?case
  proof (cases x)
    case (Lit c)
    then show ?thesis using Cons by (cases s) (auto split: if_splits)
  next
    case (GreedyPlus cc)
    with Cons.prems(1) obtain k where "run p (drop k s) st gs = Some gs'"
      by (blast elim: run_GreedyPlusE run_LazyStarE)
    from Cons.IH[OF this Cons.prems(2,3)] show ?thesis .
  next
    case (LazyStar cc)
    with Cons.prems(1) obtain k where "run p (drop k s) st gs = Some gs'"
      by (blast elim: run_GreedyPlusE run_LazyStarE)
    from Cons.IH[OF this Cons.prems(2,3)] show ?thesis .
  next
    case (Repeat n cc)
    then show ?thesis using Cons by (auto split: if_splits)
  next
    case GOpen
    with Cons.prems(1) have r: "run p s ((length gs, s) # st) (gs @ [[]]) = Some gs'" by simp
    have "gs' ! i = (gs @ [[]]) ! i"
      using Cons.IH[OF r] Cons.prems(2,3) by auto
    then show ?thesis using Cons.prems(2) by (simp add: nth_append)
  next
    case GClose
    show ?thesis
    proof (cases st)
      case Nil
      then show ?thesis using Cons GClose by auto
    next
      case (Cons a st')
      obtain i0 s0 where a: "a = (i0, s0)" by (cases a)
      have r: "run p s st' (gs[i0 := take (length s0 - length s) s0]) = Some gs'"
        using Cons.prems(1) GClose Cons a by simp
      have ne: "i \<noteq> i0" "i \<notin> fst ` set st'" using Cons.prems(3) Cons a by auto
      have "gs' ! i = (gs[i0 := take (length s0 - length s) s0]) ! i"
        using Cons.IH[OF r] \<open>i < length gs\<close> ne(2) by simp
      then show ?thesis using ne(1) by simp
    qed
  next
    case Eos
    then show ?thesis using Cons by (auto split: if_splits)
  qed
qed

lemma run_skip_prefix:
  "run (pre @ q) s st gs = Some gs' \<Longrightarrow> stack_ok st gs
   \<Longrightarrow> \<exists>s' st' gs''. run q s' st' gs'' = Some gs'
                     \<and> length gs'' = length gs + count_list pre GOpen \<and> stack_ok st' gs''"
proof (induction pre arbitrary: s st gs)
  case Nil
  then show ?case by auto
next
  case (Cons x pre)
  show ?case
  proof (cases x)
    case (Lit c)
    with Cons.prems(1) obtain xs where "run (pre @ q) xs st gs = Some gs'"
      by (cases s) (auto split: if_splits)
    from Cons.IH[OF this Cons.prems(2)] show ?thesis using Lit by simp
  next
    case (GreedyPlus cc)
    with Cons.prems(1) obtain k where "run (pre @ q) (drop k s) st gs = Some gs'"
      by (auto elim: run_GreedyPlusE run_LazyStarE simp del: run.simps)
    from Cons.IH[OF this Cons.prems(2)] show ?thesis using GreedyPlus by simp
  next
    case (LazyStar cc)
    with Cons.prems(1) obtain k where "run (pre @ q) (drop k s) st gs = Some gs'"
      by (auto elim: run_GreedyPlusE run_LazyStarE simp del: run.simps)
    from Cons.IH[OF this Cons.prems(2)] show ?thesis using LazyStar by simp
  next
    case (Repeat n cc)
    with Cons.prems(1) have "run (pre @ q) (drop n s) st gs = Some gs'"
      by (auto split: if_splits)
    from Cons.IH[OF this Cons.prems(2)] show ?thesis using Repeat by simp
  next
    case GOpen
    with Cons.prems(1) have r: "run (pre @ q) s ((length gs, s) # st) (gs @ [[]]) = Some gs'"
      by simp
    have "stack_ok ((length gs, s) # st) (gs @ [[]])"
      using Cons.prems(2) by (auto simp: stack_ok_def)
    from Cons.IH[OF r this] show ?thesis using GOpen by simp
  next
    case GClose
    show ?thesis
    proof (cases st)
      case Nil
      with Cons.prems(1) GClose have "run (pre @ q) s st gs = Some gs'" by simp
      from Cons.IH[OF this Cons.prems(2)] show ?thesis using GClose by simp
    next
      case (Cons a st')
      obtain i0 s0 where a: "a = (i0, s0)" by (cases a)
      have r: "run (pre @ q) s st' (gs[i0 := take (length s0 - length s) s0]) = Some gs'"
        using Cons.prems(1) GClose Cons a by simp
      have "stack_ok st' (gs[i0 := take (length s0 - length s) s0])"
        using Cons.prems(2) Cons by (auto simp: stack_ok_def)
      from Cons.IH[OF r this] show ?thesis using GClose by simp
    qed
  next
    case Eos
    with Cons.prems(1) have "run (pre @ q) s st gs = Some gs'" by (auto split: if_splits)
    from Cons.IH[OF this Cons.prems(2)] show ?thesis using Eos by simp
  qed
qed

lemma take_takeWhile_all: "k \<le> length (takeWhile P s) \<Longrightarrow> list_all P (take k s)"
proof (induction s arbitrary: k)
  case Nil
  then show ?case by simp
next
  case (Cons a s)
  then show ?case by (cases k) (auto split: if_splits)
qed

lemma run_group_class:
  assumes "run (GOpen # GreedyPlus cc # GClose # q) s st gs = Some gs'" and "stack_ok st gs"
  shows "length gs < length gs' \<and> gs' ! (length gs) \<noteq> [] \<and> list_all (in_class cc) (gs' ! (length gs))"
proof -
  from assms(1)
  have "run (GreedyPlus cc # GClose # q) s ((length gs, s) # st) (gs @ [[]]) = Some gs'"
    by (simp only: run.simps)
  then obtain k where k1: "1 \<le> k" and k2: "k \<le> length (takeWhile (in_class cc) s)"
    and r: "run (GClose # q) (drop k s) ((length gs, s) # st) (gs @ [[]]) = Some gs'"
    by (rule run_GreedyPlusE)
  have kl: "k \<le> length s" using k2 length_takeWhile_le[of "in_class cc" s] by linarith
  have "length s - length (drop k s) = k" using kl by simp
  then have r': "run q (drop k s) st (gs @ [take k s]) = Some gs'" using r by simp
  have notin: "length gs \<notin> fst ` set st" using assms(2) by (auto simp: stack_ok_def)
  have "gs' ! (length gs) = (gs @ [take k s]) ! (length gs)"
    using run_preserve[OF r', of "length gs"] notin by simp
  then have g: "gs' ! (length gs) = take k s" by simp
  have "length gs' = length (gs @ [take k s]) + count_list q GOpen" using run_length[OF r'] .
  then have "length gs < length gs'" by simp
  moreover have "take k s \<noteq> []" using k1 kl by (cases s) auto
  moreover have "list_all (in_class cc) (take k s)" using take_takeWhile_all[OF k2] .
  ultimately show ?thesis using g by simp
qed

lemma re_match_group_class:
  assumes "re_match (pre @ GOpen # GreedyPlus cc # GClose # q) s = Some gs"
  shows "list_all (in_class cc) (gs ! (count_list pre GOpen))"
proof -
  have "stack_ok [] []" by (simp add: stack_ok_def)
  from run_skip_prefix[OF assms[unfolded re_match_def] this]
  obtain s' st' gs'' where r: "run (GOpen # GreedyPlus cc # GClose # q) s' st' gs'' = Some gs"
    and l: "length gs'' = 0 + count_list pre GOpen" and ok: "stack_ok st' gs''"
    unfolding list.size by blast
  from run_group_class[OF r ok] l show ?thesis by simp
qed

lemma re_match_length: "re_match p s = Some gs \<Longrightarrow> length gs = count_list p GOpen"
  unfolding re_match_def using run_length by fastforce

lemma run_group_bound:
  "run p s st gs = Some gs' \<Longrightarrow> length s \<le> N \<Longrightarrow> \<forall>a \<in> set st. length (snd a) \<le> N
   \<Longrightarrow> \<forall>g \<in> set gs. length g \<le> N \<Longrightarrow> \<forall>g \<in> set gs'. length g \<le> N"
proof (induction p arbitrary: s st gs)
  case Nil
  then show ?case by simp
next
  case (Cons x p)
  show ?case
  proof (cases x)
    case (Lit c)
    with Cons.prems(1) obtain xs where s: "s = c # xs" and r: "run p xs st gs = Some gs'"
      by (cases s) (auto split: if_splits)
    have "length xs \<le> N" using Cons.prems(2) s by simp
    from Cons.IH[OF r this Cons.prems(3,4)] show ?thesis .
  next
    case (GreedyPlus cc)
    with Cons.prems(1) obtain k where r: "run p (drop k s) st gs = Some gs'"
      by (blast elim: run_GreedyPlusE)
    have "length (drop k s) \<le> N" using Cons.prems(2) by simp
    from Cons.IH[OF r this Cons.prems(3,4)] show ?thesis .
  next
    case (LazyStar cc)
    with Cons.prems(1) obtain k where r: "run p (drop k s) st gs = Some gs'"
      by (blast elim: run_LazyStarE)
    have "length (drop k s) \<le> N" using Cons.prems(2) by simp
    from Cons.IH[OF r this Cons.prems(3,4)] show ?thesis .
  next
    case (Repeat n cc)
    with Cons.prems(1) have r: "run p (drop n s) st gs = Some gs'" by (auto split: if_splits)
    have "length (drop n s) \<le> N" using Cons.prems(2) by simp
    from Cons.IH[OF r this Cons.prems(3,4)] show ?thesis .
  next
    case GOpen
    with Cons.prems(1) have r: "run p s ((length gs, s) # st) (gs @ [[]]) = Some gs'" by simp
    have "\<forall>a \<in> set ((length gs, s) # st). length (snd a) \<le> N"
      using Cons.prems(2,3) by simp
    moreover have "\<forall>g \<in> set (gs @ [[]]). length g \<le> N" using Cons.prems(4) by simp
    ultimately show ?thesis using Cons.IH[OF r Cons.prems(2)] by blast
  next
    case GClose
    show ?thesis
    proof (cases st)
      case Nil
      with Cons.prems(1) GClose have r: "run p s st gs = Some gs'" by simp
      from Cons.IH[OF r Cons.prems(2,3,4)] show ?thesis .
    next
      case (Cons a st')
      obtain i0 s0 where a: "a = (i0, s0)" by (cases a)
      have r: "run p s st' (gs[i0 := take (length s0 - length s) s0]) = Some gs'"
        using Cons.prems(1) GClose Cons a by simp
      have s0: "length s0 \<le> N" using Cons.prems(3) Cons a by simp
      have st': "\<forall>a \<in> set st'. length (snd a) \<le> N" using Cons.prems(3) Cons by simp
      have "\<forall>g \<in> set (gs[i0 := take (length s0 - length s) s0]). length g \<le> N"
      proof
        fix g assume "g \<in> set (gs[i0 := take (length s0 - length s) s0])"
        then have "g \<in> insert (take (length s0 - length s) s0) (set gs)"
          using set_update_subset_insert by fastforce
        then show "length g \<le> N" using Cons.prems(4) s0 by auto
      qed
      from Cons.IH[OF r Cons.prems(2) st' this] show ?thesis .
    qed
  next
    case Eos
    with Cons.prems(1) have r: "run p s st gs = Some gs'" by (auto split: if_splits)
    from Cons.IH[OF r Cons.prems(2,3,4)] show ?thesis .
  qed
qed

lemma re_match_group_bound:
  assumes "re_match p line = Some gs" and "i < length gs"
  shows "length (gs ! i) \<le> length line"
proof -
  have "\<forall>g \<in> set gs. length g \<le> length line"
    using run_group_bound[OF assms(1)[unfolded re_match_def], of "length line"] by simp
  then show ?thesis using assms(2) by simp
qed

section \<open>Properties of the line parser\<close>

lemma decimal_is_digit: "is_decimal c \<Longrightarrow> is_digit_char c"
  by (simp add: is_decimal_def is_digit_char_def Let_def)

lemma int_guard_small:
  assumes "list_all is_decimal g" and "length g \<le> int_max_str_digits"
  shows "\<exists>n. (if str_isdigit g then py_int g else Inr 0) = Inr n"
proof (cases "g = []")
  case True
  then show ?thesis by (simp add: str_isdigit_def)
next
  case False
  then have "py_int g = Inr (int (decimal_val g))" using assms by (simp add: py_int_def)
  then show ?thesis by simp
qed

lemma int_guard_large:
  assumes "list_all is_decimal g" and "int_max_str_digits < length g"
  shows "(if str_isdigit g then py_int g else Inr 0) = Inl ValueError"
proof -
  have "g \<noteq> []" using assms(2) by auto
  moreover have "list_all is_digit_char g"
    using assms(1) decimal_is_digit by (auto simp: list_all_iff)
  ultimately have "str_isdigit g" by (simp add: str_isdigit_def)
  moreover have "py_int g = Inl ValueError" using assms(2) by (simp add: py_int_def)
  ultimately show ?thesis by simp
qed

lemma decomp_apache:
  "pat_apache = (grp [GreedyPlus NonSpace] @ lits '' '' @ [GreedyPlus NonSpace] @ lits '' ''
     @ [GreedyPlus NonSpace] @ lits '' ['' @ grp [LazyStar AnyChar] @ lits ''] \"''
     @ grp [LazyStar AnyChar] @ lits ''\" '') @ GOpen # GreedyPlus Digit # GClose # (lits '' ''
     @ grp [GreedyPlus Digit])"
  "pat_apache = (grp [GreedyPlus NonSpace] @ lits '' '' @ [GreedyPlus NonSpace] @ lits '' ''
     @ [GreedyPlus NonSpace] @ lits '' ['' @ grp [LazyStar AnyChar] @ lits ''] \"''
     @ grp [LazyStar AnyChar] @ lits ''\" '' @ grp [GreedyPlus Digit] @ lits '' '')
     @ GOpen # GreedyPlus Digit # GClose # []"
  by (simp_all add: pat_apache_def grp_def)

lemma decomp_common:
  "pat_common = (grp [GreedyPlus NonSpace] @ lits '' - - ['' @ grp [LazyStar AnyChar] @ lits ''] \"''
     @ grp [LazyStar AnyChar] @ lits ''\" '') @ GOpen # GreedyPlus Digit # GClose # (lits '' ''
     @ grp [GreedyPlus Digit])"
  "pat_common = (grp [GreedyPlus NonSpace] @ lits '' - - ['' @ grp [LazyStar AnyChar] @ lits ''] \"''
     @ grp [LazyStar AnyChar] @ lits ''\" '' @ grp [GreedyPlus Digit] @ lits '' '')
     @ GOpen # GreedyPlus Digit # GClose # []"
  by (simp_all add: pat_common_def grp_def)

lemma decomp_nginx:
  "pat_nginx = (grp [GreedyPlus NonSpace] @ lits '' - - ['' @ grp [LazyStar AnyChar] @ lits ''] \"''
     @ grp [LazyStar AnyChar] @ lits ''\" '') @ GOpen # GreedyPlus Digit # GClose # (lits '' ''
     @ grp [GreedyPlus Digit] @ lits '' \"'' @ grp [LazyStar AnyChar] @ lits ''\" \"''
     @ grp [LazyStar AnyChar] @ lits ''\"'')"
  "pat_nginx = (grp [GreedyPlus NonSpace] @ lits '' - - ['' @ grp [LazyStar AnyChar] @ lits ''] \"''
     @ grp [LazyStar AnyChar] @ lits ''\" '' @ grp [GreedyPlus Digit] @ lits '' '')
     @ GOpen # GreedyPlus Digit # GClose # (lits '' \"'' @ grp [LazyStar AnyChar] @ lits ''\" \"''
     @ grp [LazyStar AnyChar] @ lits ''\"'')"
  by (simp_all add: pat_nginx_def grp_def)

lemma count_lits [simp]: "count_list (lits s) GOpen = 0"
  by (induction s) (auto simp: lits_def)

lemma count_append [simp]: "count_list (xs @ ys) a = count_list xs a + count_list ys a"
  by (induction xs) auto

lemma groups_apache:
  assumes "re_match pat_apache line = Some gs"
  shows "length gs = 5 \<and> list_all is_decimal (gs ! 3) \<and> list_all is_decimal (gs ! 4)"
proof -
  have "length gs = 5"
    using re_match_length[OF assms] by (simp add: pat_apache_def grp_def)
  moreover have "list_all (in_class Digit) (gs ! 3)"
    using re_match_group_class[OF assms[unfolded decomp_apache(1)]] by (simp add: grp_def eval_nat_numeral)
  moreover have "list_all (in_class Digit) (gs ! 4)"
    using re_match_group_class[OF assms[unfolded decomp_apache(2)]] by (simp add: grp_def eval_nat_numeral)
  ultimately show ?thesis by (simp add: list_all_iff)
qed

lemma groups_common:
  assumes "re_match pat_common line = Some gs"
  shows "length gs = 5 \<and> list_all is_decimal (gs ! 3) \<and> list_all is_decimal (gs ! 4)"
proof -
  have "length gs = 5"
    using re_match_length[OF assms] by (simp add: pat_common_def grp_def)
  moreover have "list_all (in_class Digit) (gs ! 3)"
    using re_match_group_class[OF assms[unfolded decomp_common(1)]] by (simp add: grp_def eval_nat_numeral)
  moreover have "list_all (in_class Digit) (gs ! 4)"
    using re_match_group_class[OF assms[unfolded decomp_common(2)]] by (simp add: grp_def eval_nat_numeral)
  ultimately show ?thesis by (simp add: list_all_iff)
qed

lemma groups_nginx:
  assumes "re_match pat_nginx line = Some gs"
  shows "length gs = 7 \<and> list_all is_decimal (gs ! 3) \<and> list_all is_decimal (gs ! 4)"
proof -
  have "length gs = 7"
    using re_match_length[OF assms] by (simp add: pat_nginx_def grp_def)
  moreover have "list_all (in_class Digit) (gs ! 3)"
    using re_match_group_class[OF assms[unfolded decomp_nginx(1)]] by (simp add: grp_def eval_nat_numeral)
  moreover have "list_all (in_class Digit) (gs ! 4)"
    using re_match_group_class[OF assms[unfolded decomp_nginx(2)]] by (simp add: grp_def eval_nat_numeral)
  ultimately show ?thesis by (simp add: list_all_iff)
qed

lemma groups_custom:
  assumes "re_match pat_custom line = Some gs"
  shows "length gs = 3"
  using re_match_length[OF assms] by (simp add: pat_custom_def grp_def)



lemma extract_apache_ok:
  assumes "length gs = 5"
    and "(if str_isdigit (gs ! 3) then py_int (gs ! 3) else Inr 0) = Inr n3"
    and "(if str_isdigit (gs ! 4) then py_int (gs ! 4) else Inr 0) = Inr n4"
  shows "extracted sp gs ''apache'' line"
  unfolding extracted_def using assms
  by (simp add: extract_fields_def tuple_get_def rbind_def Let_def unparsed_def
                format_fields_def web_fields_def)

lemma extract_common_ok:
  assumes "length gs = 5"
    and "(if str_isdigit (gs ! 3) then py_int (gs ! 3) else Inr 0) = Inr n3"
    and "(if str_isdigit (gs ! 4) then py_int (gs ! 4) else Inr 0) = Inr n4"
  shows "extracted sp gs ''common'' line"
  unfolding extracted_def using assms
  by (simp add: extract_fields_def tuple_get_def rbind_def Let_def unparsed_def
                format_fields_def web_fields_def)

lemma extract_nginx_ok:
  assumes "length gs = 7"
    and "(if str_isdigit (gs ! 3) then py_int (gs ! 3) else Inr 0) = Inr n3"
    and "(if str_isdigit (gs ! 4) then py_int (gs ! 4) else Inr 0) = Inr n4"
  shows "extracted sp gs ''nginx'' line"
  unfolding extracted_def using assms
  by (simp add: extract_fields_def tuple_get_def rbind_def Let_def unparsed_def
                format_fields_def web_fields_def)

lemma extract_combined_ok:
  assumes "length gs = 7"
    and "(if str_isdigit (gs ! 3) then py_int (gs ! 3) else Inr 0) = Inr n3"
    and "(if str_isdigit (gs ! 4) then py_int (gs ! 4) else Inr 0) = Inr n4"
  shows "extracted sp gs ''combined'' line"
  unfolding extracted_def using assms
  by (simp add: extract_fields_def tuple_get_def rbind_def Let_def unparsed_def
                format_fields_def web_fields_def)

lemma extract_web_raises_status:
  assumes "name = ''apache'' \<or> name = ''nginx'' \<or> name = ''common'' \<or> name = ''combined''"
    and "5 \<le> length gs"
    and "(if str_isdigit (gs ! 3) then py_int (gs ! 3) else Inr 0) = Inl ValueError"
  shows "extract_fields sp gs name line = Inl ValueError"
  using assms by (auto simp add: extract_fields_def tuple_get_def rbind_def Let_def)

lemma extract_web_raises_size:
  assumes "name = ''apache'' \<or> name = ''nginx'' \<or> name = ''common'' \<or> name = ''combined''"
    and "5 \<le> length gs"
    and "(if str_isdigit (gs ! 3) then py_int (gs ! 3) else Inr 0) = Inr n3"
    and "(if str_isdigit (gs ! 4) then py_int (gs ! 4) else Inr 0) = Inl ValueError"
  shows "extract_fields sp gs name line = Inl ValueError"
  using assms by (auto simp add: extract_fields_def tuple_get_def rbind_def Let_def)

lemma extract_web:
  assumes w: "name = ''apache'' \<or> name = ''nginx'' \<or> name = ''common'' \<or> name = ''combined''"
    and l: "5 \<le> length gs"
    and d3: "list_all is_decimal (gs ! 3)" and d4: "list_all is_decimal (gs ! 4)"
    and b3: "length (gs ! 3) \<le> length line" and b4: "length (gs ! 4) \<le> length line"
    and ok: "\<And>n3 n4. (if str_isdigit (gs ! 3) then py_int (gs ! 3) else Inr 0) = Inr n3
               \<Longrightarrow> (if str_isdigit (gs ! 4) then py_int (gs ! 4) else Inr 0) = Inr n4
               \<Longrightarrow> extracted sp gs name line"
  shows "(extract_fields sp gs name line = Inl ValueError \<and> int_max_str_digits < length line)
         \<or> extracted sp gs name line"
proof (cases "length (gs ! 3) \<le> int_max_str_digits")
  case False
  then have "(if str_isdigit (gs ! 3) then py_int (gs ! 3) else Inr 0) = Inl ValueError"
    using int_guard_large[OF d3] by simp
  then have "extract_fields sp gs name line = Inl ValueError"
    by (rule extract_web_raises_status[OF w l])
  moreover have "int_max_str_digits < length line" using False b3 by linarith
  ultimately show ?thesis by blast
next
  case True
  from int_guard_small[OF d3 True] obtain n3
    where n3: "(if str_isdigit (gs ! 3) then py_int (gs ! 3) else Inr 0) = Inr n3" by blast
  show ?thesis
  proof (cases "length (gs ! 4) \<le> int_max_str_digits")
    case False
    then have "(if str_isdigit (gs ! 4) then py_int (gs ! 4) else Inr 0) = Inl ValueError"
      using int_guard_large[OF d4] by simp
    then have "extract_fields sp gs name line = Inl ValueError"
      by (rule extract_web_raises_size[OF w l n3])
    moreover have "int_max_str_digits < length line" using False b4 by linarith
    ultimately show ?thesis by blast
  next
    case True
    from int_guard_small[OF d4 True] obtain n4
      where n4: "(if str_isdigit (gs ! 4) then py_int (gs ! 4) else Inr 0) = Inr n4" by blast
    from ok[OF n3 n4] show ?thesis by (rule disjI2)
  qed
qed

lemma extract_custom:
  assumes "length gs = 3"
  shows "extracted sp gs ''custom'' line"
  unfolding extracted_def using assms
  by (simp add: extract_fields_def tuple_get_def rbind_def Let_def unparsed_def
                format_fields_def custom_fields_def)

lemma extract_ok:
  assumes "(name, p) \<in> set log_patterns" and "re_match p line = Some gs"
  shows "(extract_fields sp gs name line = Inl ValueError \<and> int_max_str_digits < length line)
         \<or> extracted sp gs name line"
proof -
  from assms(1)
  have "(name, p) \<in> {(''apache'', pat_apache), (''nginx'', pat_nginx), (''common'', pat_common),
                        (''combined'', pat_combined), (''custom'', pat_custom)}"
    by (simp only: log_patterns_def list.set)
  then consider
      "name = ''apache''" "p = pat_apache" | "name = ''nginx''" "p = pat_nginx"
    | "name = ''common''" "p = pat_common" | "name = ''combined''" "p = pat_combined"
    | "name = ''custom''" "p = pat_custom"
    by (elim insertE emptyE Pair_inject) blast+
  then show ?thesis
  proof cases
    case 1
    have m: "re_match pat_apache line = Some gs" using assms(2) unfolding 1(2) .
    from groups_apache[OF m] have g: "length gs = 5" "list_all is_decimal (gs ! 3)"
      "list_all is_decimal (gs ! 4)" by blast+
    have b: "length (gs ! 3) \<le> length line" "length (gs ! 4) \<le> length line"
      using re_match_group_bound[OF m] g(1) by simp_all
    have w: "name = ''apache'' \<or> name = ''nginx'' \<or> name = ''common'' \<or> name = ''combined''"
      using 1(1) by (rule disjI1)
    have l: "5 \<le> length gs" using g(1) by simp
    have ok: "extracted sp gs name line"
      if "(if str_isdigit (gs ! 3) then py_int (gs ! 3) else Inr 0) = Inr n3"
        and "(if str_isdigit (gs ! 4) then py_int (gs ! 4) else Inr 0) = Inr n4" for n3 n4
      unfolding 1(1) using g(1) that by (rule extract_apache_ok)
    show ?thesis by (rule extract_web[OF w l g(2,3) b ok])
  next
    case 2
    have m: "re_match pat_nginx line = Some gs" using assms(2) unfolding 2(2) .
    from groups_nginx[OF m] have g: "length gs = 7" "list_all is_decimal (gs ! 3)"
      "list_all is_decimal (gs ! 4)" by blast+
    have b: "length (gs ! 3) \<le> length line" "length (gs ! 4) \<le> length line"
      using re_match_group_bound[OF m] g(1) by simp_all
    have w: "name = ''apache'' \<or> name = ''nginx'' \<or> name = ''common'' \<or> name = ''combined''"
      using 2(1) by (intro disjI2 disjI1)
    have l: "5 \<le> length gs" using g(1) by simp
    have ok: "extracted sp gs name line"
      if "(if str_isdigit (gs ! 3) then py_int (gs ! 3) else Inr 0) = Inr n3"
        and "(if str_isdigit (gs ! 4) then py_int (gs ! 4) else Inr 0) = Inr n4" for n3 n4
      unfolding 2(1) using g(1) that by (rule extract_nginx_ok)
    show ?thesis by (rule extract_web[OF w l g(2,3) b ok])
  next
    case 3
    have m: "re_match pat_common line = Some gs" using assms(2) unfolding 3(2) .
    from groups_common[OF m] have g: "length gs = 5" "list_all is_decimal (gs ! 3)"
      "list_all is_decimal (gs ! 4)" by blast+
    have b: "length (gs ! 3) \<le> length line" "length (gs ! 4) \<le> length line"
      using re_match_group_bound[OF m] g(1) by simp_all
    have w: "name = ''apache'' \<or> name = ''nginx'' \<or> name = ''common'' \<or> name = ''combined''"
      using 3(1) by (intro disjI2 disjI1)
    have l: "5 \<le> length gs" using g(1) by simp
    have ok: "extracted sp gs name line"
      if "(if str_isdigit (gs ! 3) then py_int (gs ! 3) else Inr 0) = Inr n3"
        and "(if str_isdigit (gs ! 4) then py_int (gs ! 4) else Inr 0) = Inr n4" for n3 n4
      unfolding 3(1) using g(1) that by (rule extract_common_ok)
    show ?thesis by (rule extract_web[OF w l g(2,3) b ok])
  next
    case 4
    have m: "re_match pat_nginx line = Some gs"
      using assms(2) unfolding 4(2) combined_eq_nginx .
    from groups_nginx[OF m] have g: "length gs = 7" "list_all is_decimal (gs ! 3)"
      "list_all is_decimal (gs ! 4)" by blast+
    have b: "length (gs ! 3) \<le> length line" "length (gs ! 4) \<le> length line"
      using re_match_group_bound[OF m] g(1) by simp_all
    have w: "name = ''apache'' \<or> name = ''nginx'' \<or> name = ''common'' \<or> name = ''combined''"
      using 4(1) by (intro disjI2)
    have l: "5 \<le> length gs" using g(1) by simp
    have ok: "extracted sp gs name line"
      if "(if str_isdigit (gs ! 3) then py_int (gs ! 3) else Inr 0) = Inr n3"
        and "(if str_isdigit (gs ! 4) then py_int (gs ! 4) else Inr 0) = Inr n4" for n3 n4
      unfolding 4(1) using g(1) that by (rule extract_combined_ok)
    show ?thesis by (rule extract_web[OF w l g(2,3) b ok])
  next
    case 5
    have m: "re_match pat_custom line = Some gs" using assms(2) unfolding 5(2) .
    from groups_custom[OF m] have "extracted sp gs ''custom'' line" by (rule extract_custom)
    then show ?thesis unfolding 5(1) by (rule disjI2)
  qed
qed

lemma auto_detect_None:
  "auto_detect sp ps line = None \<longleftrightarrow> (\<forall>(n, p) \<in> set ps. re_match p line = None)"
  by (induction ps) (auto split: option.splits)

lemma auto_detect_Some:
  "auto_detect sp ps line = Some r
   \<Longrightarrow> \<exists>n p gs. (n, p) \<in> set ps \<and> re_match p line = Some gs \<and> r = extract_fields sp gs n line"
proof (induction ps)
  case Nil
  then show ?case by simp
next
  case (Cons a ps)
  obtain n p where a: "a = (n, p)" by (cases a)
  show ?case
  proof (cases "re_match p line")
    case None
    with Cons.prems a have "auto_detect sp ps line = Some r" by simp
    from Cons.IH[OF this] show ?thesis by auto
  next
    case (Some gs)
    with Cons.prems a have "r = extract_fields sp gs n line" by simp
    with Some a show ?thesis by auto
  qed
qed

lemma map_of_log_patterns:
  "map_of log_patterns fmt = Some p \<Longrightarrow> (fmt, p) \<in> set log_patterns"
  by (rule map_of_SomeD)

lemma parse_log_line_cases:
  "parse_log_line sp line fmt = Inr (unparsed line)
   \<or> (\<exists>n p gs. (n, p) \<in> set log_patterns \<and> (fmt = ''auto'' \<or> fmt = n)
         \<and> re_match p line = Some gs
         \<and> parse_log_line sp line fmt = extract_fields sp gs n line
         \<and> ((extract_fields sp gs n line = Inl ValueError \<and> int_max_str_digits < length line)
             \<or> extracted sp gs n line))"
proof (cases "fmt = ''auto''")
  case True
  show ?thesis
  proof (cases "auto_detect sp log_patterns line")
    case None
    then show ?thesis using True by (simp add: parse_log_line_def)
  next
    case (Some r)
    from auto_detect_Some[OF Some] obtain n p gs where np: "(n, p) \<in> set log_patterns"
      and m: "re_match p line = Some gs" and r: "r = extract_fields sp gs n line" by blast
    have "parse_log_line sp line fmt = extract_fields sp gs n line"
      using True Some r by (simp add: parse_log_line_def)
    with np m extract_ok[OF np m, of sp] True show ?thesis by blast
  qed
next
  case False
  show ?thesis
  proof (cases "map_of log_patterns fmt")
    case None
    then show ?thesis using False by (simp add: parse_log_line_def)
  next
    case (Some p)
    note sp = Some
    show ?thesis
    proof (cases "re_match p line")
      case None
      then show ?thesis using False sp by (simp add: parse_log_line_def)
    next
      case (Some gs)
      have np: "(fmt, p) \<in> set log_patterns" using sp by (rule map_of_log_patterns)
      have "parse_log_line sp line fmt = extract_fields sp gs fmt line"
        using False sp Some by (simp add: parse_log_line_def)
      with np Some extract_ok[OF np Some, of sp] show ?thesis by blast
    qed
  qed
qed

lemma parse_log_line_short_total:
  assumes "length line \<le> int_max_str_digits"
  shows "\<exists>e. parse_log_line sp line fmt = Inr e"
  using parse_log_line_cases[of sp line fmt] assms by (auto simp: extracted_def)

lemma parse_log_line_raises:
  assumes "parse_log_line sp line fmt = Inl x"
  shows "x = ValueError \<and> int_max_str_digits < length line"
  using parse_log_line_cases[of sp line fmt] assms by (auto simp: extracted_def)


lemma first_some_upt:
  "first_some (map f [i ..< j]) =
     (if i < j then (case f i of None \<Rightarrow> first_some (map f [Suc i ..< j]) | Some y \<Rightarrow> Some y)
      else None)"
  by (cases "f i") (simp_all add: upt_rec[of i j])

lemma first_some_rev_upt:
  "first_some (map f (rev [i ..< Suc n])) =
     (if i \<le> n then (case f n of None \<Rightarrow> first_some (map f (rev [i ..< n])) | Some y \<Rightarrow> Some y)
      else None)"
  by (cases "f n") simp_all

lemma auto_detect_first:
  "i < length ps \<Longrightarrow> \<forall>j<i. re_match (snd (ps ! j)) line = None
   \<Longrightarrow> re_match (snd (ps ! i)) line = Some gs
   \<Longrightarrow> auto_detect sp ps line = Some (extract_fields sp gs (fst (ps ! i)) line)"
proof (induction ps arbitrary: i)
  case Nil
  then show ?case by simp
next
  case (Cons a ps)
  obtain n p where a: "a = (n, p)" by (cases a)
  show ?case
  proof (cases i)
    case 0
    then show ?thesis using Cons.prems a by simp
  next
    case (Suc i')
    have "re_match p line = None" using Cons.prems(2) Suc a by fastforce
    moreover have "auto_detect sp ps line = Some (extract_fields sp gs (fst (ps ! i')) line)"
      using Cons.IH[of i'] Cons.prems Suc by fastforce
    ultimately show ?thesis using a Suc by simp
  qed
qed

lemma parse_auto_apache:
  assumes "re_match pat_apache line = Some gs"
  shows "parse_log_line sp line ''auto'' = extract_fields sp gs ''apache'' line"
  using assms by (simp add: parse_log_line_def log_patterns_def)

lemma parse_auto_apache_cases:
  assumes "re_match pat_apache line \<noteq> None"
  shows "(parse_log_line sp line ''auto'' = Inl ValueError \<and> int_max_str_digits < length line)
         \<or> (\<exists>e. parse_log_line sp line ''auto'' = Inr e \<and> parsed e
                \<and> format e = Some ''apache''
                \<and> raw_line e = line \<and> line_number e = None \<and> format_fields e)"
proof -
  from assms obtain gs where gs: "re_match pat_apache line = Some gs" by blast
  have "(''apache'', pat_apache) \<in> set log_patterns" by (simp add: log_patterns_def)
  from extract_ok[OF this gs, of sp] show ?thesis
    unfolding parse_auto_apache[OF gs] extracted_def .
qed

lemma parse_auto_not_apache:
  assumes "re_match pat_apache line = None"
  shows "parse_log_line sp line ''auto'' = Inr (unparsed line)
         \<or> (\<exists>e. parse_log_line sp line ''auto'' = Inr e \<and> parsed e \<and> format e = Some ''custom''
               \<and> raw_line e = line \<and> line_number e = None \<and> format_fields e)"
proof -
  have c: "re_match pat_common line = None" using assms common_imp_apache by blast
  then have n: "re_match pat_nginx line = None" using nginx_imp_common by blast
  then have b: "re_match pat_combined line = None" by (simp add: combined_eq_nginx)
  show ?thesis
  proof (cases "re_match pat_custom line")
    case None
    then show ?thesis using assms c n b by (simp add: parse_log_line_def log_patterns_def)
  next
    case (Some gs)
    have p: "parse_log_line sp line ''auto'' = extract_fields sp gs ''custom'' line"
      using assms c n b Some by (simp add: parse_log_line_def log_patterns_def)
    from groups_custom[OF Some] have "extracted sp gs ''custom'' line" by (rule extract_custom)
    then show ?thesis unfolding p extracted_def by (rule disjI2)
  qed
qed

lemma scenario1_groups:
  "re_match pat_apache scenario1_line
     = Some [''10.0.0.1'', ''10/Oct/2024:13:55:36 -0700'', ''GET /index.html HTTP/1.1'',
             ''200'', ''512'']"
  unfolding scenario1_line_def re_match_def pat_apache_def lits_def grp_def
  by (simp add: first_some_upt first_some_rev_upt is_space_def is_decimal_def del: upt_Suc)

lemma scenario1_timestamp:
  "parse_timestamp strptime ''10/Oct/2024:13:55:36 -0700''
     = Some \<lparr>year = 2024, month = 10, day = 10, hour = 13, minute = 55, second = 36,
              microsecond = 0, tzinfo = Some (- 25200)\<rparr>"
  by (simp add: strptime_eval is_decimal_def is_space_def decimal_val_def digit_val_def)

lemma scenario1_parsed:
  "parse_log_line strptime scenario1_line ''auto''
       = Inr \<lparr>raw_line = scenario1_line, parsed = True, line_number = None,
              format = Some ''apache'', ip = Some ''10.0.0.1'',
              timestamp = Some (Some \<lparr>year = 2024, month = 10, day = 10, hour = 13,
                                       minute = 55, second = 36, microsecond = 0,
                                       tzinfo = Some (- 25200)\<rparr>),
              request = Some ''GET /index.html HTTP/1.1'', status = Some 200,
              size = Some 512, req_method = Some ''GET'', path = Some ''/index.html'',
              protocol = Some ''HTTP/1.1'', referer = None, user_agent = None,
              level = None, message = None\<rparr>"
  unfolding parse_auto_apache[OF scenario1_groups]
  by (simp add: scenario1_timestamp extract_fields_def rbind_def tuple_get_def str_isdigit_def
        is_digit_char_def py_int_def int_max_str_digits_def decimal_val_def digit_val_def
        split_def unparsed_def is_decimal_def is_space_def)

lemma long_line_groups:
  "re_match pat_apache long_line
     = Some [''1.1.1.1'', ''x'', ''GET /'', ''200'', replicate 4301 CHR ''1'']"
  unfolding long_line_def re_match_def pat_apache_def lits_def grp_def
  by (simp add: first_some_upt first_some_rev_upt is_space_def is_decimal_def del: upt_Suc)

lemma long_line_common: "re_match pat_common long_line \<noteq> None"
  unfolding long_line_def re_match_def pat_common_def lits_def grp_def
  by (simp add: first_some_upt first_some_rev_upt is_space_def is_decimal_def del: upt_Suc)

lemma long_line_raises: "parse_log_line sp long_line ''auto'' = Inl ValueError"
  unfolding parse_auto_apache[OF long_line_groups]
  by (simp add: extract_fields_def rbind_def tuple_get_def str_isdigit_def
        is_digit_char_def py_int_def int_max_str_digits_def decimal_val_def digit_val_def
        is_decimal_def list_all_iff)

text \<open>
  Claim C3. The table is in the order apache, nginx, common, combined, custom, and under
  automatic detection the result is the extraction of the first pattern of the table that
  matches. The extraction of a line that the apache pattern and the common pattern both match
  is a parsed entry tagged \<^verbatim>\<open>apache\<close>, or it raises \<^verbatim>\<open>ValueError\<close>, which it does only on
  a line of more than 4300 characters. It does so on \<open>long_line\<close>: both patterns match that
  line, the size capture is a run of 4301 digits, \<^verbatim>\<open>isdigit\<close> accepts it and \<^verbatim>\<open>int\<close> refuses
  it, so that no entry is returned for a line that the claim classifies as apache.
\<close>

theorem auto_first_match_wins:
  "map fst log_patterns = [''apache'', ''nginx'', ''common'', ''combined'', ''custom'']
   \<and> (\<forall>i gs. i < length log_patterns
          \<and> (\<forall>j<i. re_match (snd (log_patterns ! j)) line = None)
          \<and> re_match (snd (log_patterns ! i)) line = Some gs
        \<longrightarrow> parse_log_line sp line ''auto''
              = extract_fields sp gs (fst (log_patterns ! i)) line)
   \<and> (re_match pat_apache line \<noteq> None \<and> re_match pat_common line \<noteq> None
        \<longrightarrow> (parse_log_line sp line ''auto'' = Inl ValueError
                \<and> int_max_str_digits < length line)
            \<or> (\<exists>e. parse_log_line sp line ''auto'' = Inr e \<and> parsed e
                   \<and> format e = Some ''apache''))
   \<and> re_match pat_apache long_line \<noteq> None \<and> re_match pat_common long_line \<noteq> None
   \<and> parse_log_line sp long_line ''auto'' = Inl ValueError"
proof (intro conjI allI impI)
  show "map fst log_patterns = [''apache'', ''nginx'', ''common'', ''combined'', ''custom'']"
    by (simp add: log_patterns_def)
next
  fix i gs
  assume a: "i < length log_patterns
          \<and> (\<forall>j<i. re_match (snd (log_patterns ! j)) line = None)
          \<and> re_match (snd (log_patterns ! i)) line = Some gs"
  then have "auto_detect sp log_patterns line
               = Some (extract_fields sp gs (fst (log_patterns ! i)) line)"
    using auto_detect_first[of i log_patterns line gs sp] by blast
  then show "parse_log_line sp line ''auto''
              = extract_fields sp gs (fst (log_patterns ! i)) line"
    by (simp add: parse_log_line_def)
next
  assume "re_match pat_apache line \<noteq> None \<and> re_match pat_common line \<noteq> None"
  then have "re_match pat_apache line \<noteq> None" by simp
  from parse_auto_apache_cases[OF this, of sp]
  show "(parse_log_line sp line ''auto'' = Inl ValueError \<and> int_max_str_digits < length line)
        \<or> (\<exists>e. parse_log_line sp line ''auto'' = Inr e \<and> parsed e
               \<and> format e = Some ''apache'')"
    by blast
next
  show "re_match pat_apache long_line \<noteq> None" by (simp add: long_line_groups)
next
  show "re_match pat_common long_line \<noteq> None" by (rule long_line_common)
next
  show "parse_log_line sp long_line ''auto'' = Inl ValueError" by (rule long_line_raises)
qed

theorem auto_first_match_wins_witness:
  "re_match pat_apache scenario1_line \<noteq> None \<and> re_match pat_common scenario1_line \<noteq> None
   \<and> length scenario1_line \<le> int_max_str_digits
   \<and> parse_log_line strptime scenario1_line ''auto''
       = Inr \<lparr>raw_line = scenario1_line, parsed = True, line_number = None,
              format = Some ''apache'', ip = Some ''10.0.0.1'',
              timestamp = Some (Some \<lparr>year = 2024, month = 10, day = 10, hour = 13,
                                       minute = 55, second = 36, microsecond = 0,
                                       tzinfo = Some (- 25200)\<rparr>),
              request = Some ''GET /index.html HTTP/1.1'', status = Some 200,
              size = Some 512, req_method = Some ''GET'', path = Some ''/index.html'',
              protocol = Some ''HTTP/1.1'', referer = None, user_agent = None,
              level = None, message = None\<rparr>"
proof -
  have gs: "re_match pat_apache scenario1_line \<noteq> None" by (simp add: scenario1_groups)
  have c: "re_match pat_common scenario1_line \<noteq> None"
    unfolding scenario1_line_def re_match_def pat_common_def lits_def grp_def
    by (simp add: first_some_upt first_some_rev_upt is_space_def is_decimal_def del: upt_Suc)
  have l: "length scenario1_line \<le> int_max_str_digits"
    by (simp add: scenario1_line_def int_max_str_digits_def)
  have "0 < length log_patterns" "\<forall>j<0. re_match (snd (log_patterns ! j)) scenario1_line = None"
    "re_match (snd (log_patterns ! 0)) scenario1_line
       = Some [''10.0.0.1'', ''10/Oct/2024:13:55:36 -0700'',
               ''GET /index.html HTTP/1.1'', ''200'', ''512'']"
    using scenario1_groups by (simp_all add: log_patterns_def)
  with auto_first_match_wins[of scenario1_line strptime]
  have "parse_log_line strptime scenario1_line ''auto''
          = extract_fields strptime [''10.0.0.1'', ''10/Oct/2024:13:55:36 -0700'',
               ''GET /index.html HTTP/1.1'', ''200'', ''512''] (fst (log_patterns ! 0))
               scenario1_line"
    by blast
  also have "\<dots> = Inr \<lparr>raw_line = scenario1_line, parsed = True, line_number = None,
              format = Some ''apache'', ip = Some ''10.0.0.1'',
              timestamp = Some (Some \<lparr>year = 2024, month = 10, day = 10, hour = 13,
                                       minute = 55, second = 36, microsecond = 0,
                                       tzinfo = Some (- 25200)\<rparr>),
              request = Some ''GET /index.html HTTP/1.1'', status = Some 200,
              size = Some 512, req_method = Some ''GET'', path = Some ''/index.html'',
              protocol = Some ''HTTP/1.1'', referer = None, user_agent = None,
              level = None, message = None\<rparr>"
    by (simp add: scenario1_timestamp log_patterns_def extract_fields_def rbind_def tuple_get_def
          str_isdigit_def is_digit_char_def py_int_def int_max_str_digits_def decimal_val_def
          digit_val_def split_def unparsed_def is_decimal_def is_space_def)
  finally show ?thesis using gs c l by simp
qed

text \<open>
  Claim C4. Under automatic detection no entry carries the tag \<^verbatim>\<open>nginx\<close>, \<^verbatim>\<open>common\<close> or
  \<^verbatim>\<open>combined\<close>: the tag of every entry that is returned is absent (the line is unparsed),
  \<^verbatim>\<open>apache\<close> or \<^verbatim>\<open>custom\<close>, and its keys \<^verbatim>\<open>referer\<close> and \<^verbatim>\<open>user_agent\<close> are absent. An
  entry is returned for every line of at most 4300 characters.
\<close>

theorem auto_never_nginx_common_combined:
  "(\<forall>e. parse_log_line sp line ''auto'' = Inr e \<longrightarrow>
        format e \<in> {None, Some ''apache'', Some ''custom''}
        \<and> format e \<noteq> Some ''nginx'' \<and> format e \<noteq> Some ''common''
        \<and> format e \<noteq> Some ''combined''
        \<and> referer e = None \<and> user_agent e = None)
   \<and> (length line \<le> int_max_str_digits \<longrightarrow> (\<exists>e. parse_log_line sp line ''auto'' = Inr e))"
proof (rule conjI, intro allI impI)
  fix e assume e: "parse_log_line sp line ''auto'' = Inr e"
  show "format e \<in> {None, Some ''apache'', Some ''custom''}
        \<and> format e \<noteq> Some ''nginx'' \<and> format e \<noteq> Some ''common''
        \<and> format e \<noteq> Some ''combined''
        \<and> referer e = None \<and> user_agent e = None"
  proof (cases "re_match pat_apache line")
    case None
    from parse_auto_not_apache[OF None, of sp] show ?thesis
    proof
      assume "parse_log_line sp line ''auto'' = Inr (unparsed line)"
      with e have "e = unparsed line" by simp
      then show ?thesis by (simp add: unparsed_def)
    next
      assume "\<exists>e. parse_log_line sp line ''auto'' = Inr e \<and> parsed e
                \<and> format e = Some ''custom''
                \<and> raw_line e = line \<and> line_number e = None \<and> format_fields e"
      with e have "format e = Some ''custom''" "format_fields e" by auto
      then show ?thesis by (simp add: format_fields_def custom_fields_def)
    qed
  next
    case (Some gs)
    then have "re_match pat_apache line \<noteq> None" by simp
    from parse_auto_apache_cases[OF this, of sp] e
    have "format e = Some ''apache''" "format_fields e" by auto
    then show ?thesis by (simp add: format_fields_def)
  qed
next
  show "length line \<le> int_max_str_digits \<longrightarrow> (\<exists>e. parse_log_line sp line ''auto'' = Inr e)"
    by (intro impI) (rule parse_log_line_short_total)
qed

theorem auto_never_nginx_common_combined_witness:
  "re_match pat_nginx combined_line \<noteq> None \<and> re_match pat_combined combined_line \<noteq> None
   \<and> (\<exists>e. parse_log_line strptime combined_line ''auto'' = Inr e
          \<and> format e = Some ''apache'' \<and> referer e = None \<and> user_agent e = None)"
proof -
  have m: "re_match pat_nginx combined_line \<noteq> None"
    unfolding combined_line_def re_match_def pat_nginx_def lits_def grp_def
    by (simp add: first_some_upt first_some_rev_upt is_space_def is_decimal_def del: upt_Suc)
  then have a: "re_match pat_apache combined_line \<noteq> None"
    using nginx_imp_common common_imp_apache by blast
  have l: "length combined_line \<le> int_max_str_digits"
    by (simp add: combined_line_def int_max_str_digits_def)
  with auto_never_nginx_common_combined[of strptime combined_line]
  obtain e0 where e0: "parse_log_line strptime combined_line ''auto'' = Inr e0" by blast
  with parse_auto_apache_cases[OF a, of strptime] have f: "format e0 = Some ''apache''" by auto
  from auto_never_nginx_common_combined[of strptime combined_line] e0
  have "referer e0 = None \<and> user_agent e0 = None" by blast
  with e0 f m show ?thesis by (auto simp: combined_eq_nginx)
qed

lemma log_patterns_no_eos: "(n, p) \<in> set log_patterns \<Longrightarrow> Eos \<notin> set p"
  by (auto simp: log_patterns_def pat_apache_def pat_nginx_def pat_common_def pat_combined_def
        pat_custom_def lits_def grp_def)

lemma some_prefix_iff:
  "(\<exists>(n, p) \<in> set log_patterns. \<exists>pre rest. line = pre @ rest \<and> fullmatch p pre \<noteq> None)
   \<longleftrightarrow> (\<exists>(n, p) \<in> set log_patterns. re_match p line \<noteq> None)"
  using re_match_prefix_iff[OF log_patterns_no_eos] by blast

lemma try_formats_None:
  "try_formats sp s fmts = None \<longleftrightarrow> (\<forall>fmt \<in> set fmts. sp s fmt = None)"
  by (induction fmts) (auto split: option.splits)

lemma try_formats_Some:
  "try_formats sp s fmts = Some d
   \<Longrightarrow> \<exists>i < length fmts. sp s (fmts ! i) = Some d \<and> (\<forall>j < i. sp s (fmts ! j) = None)"
proof (induction fmts)
  case Nil
  then show ?case by simp
next
  case (Cons fmt fmts)
  show ?case
  proof (cases "sp s fmt")
    case None
    with Cons.prems have "try_formats sp s fmts = Some d" by simp
    from Cons.IH[OF this] obtain i where i: "i < length fmts" "sp s (fmts ! i) = Some d"
      "\<forall>j < i. sp s (fmts ! j) = None" by blast
    have "\<forall>j < Suc i. sp s ((fmt # fmts) ! j) = None"
    proof (intro allI impI)
      fix j assume "j < Suc i"
      then show "sp s ((fmt # fmts) ! j) = None" using None i(3) by (cases j) auto
    qed
    with i(1,2) have "Suc i < length (fmt # fmts) \<and> sp s ((fmt # fmts) ! Suc i) = Some d
        \<and> (\<forall>j < Suc i. sp s ((fmt # fmts) ! j) = None)" by simp
    then show ?thesis by blast
  next
    case (Some d')
    with Cons.prems have "d' = d" by simp
    with Some have "0 < length (fmt # fmts) \<and> sp s ((fmt # fmts) ! 0) = Some d
        \<and> (\<forall>j < 0. sp s ((fmt # fmts) ! j) = None)" by simp
    then show ?thesis by blast
  qed
qed

text \<open>
  Claim C1, as stated, fails: the line below is the line of scenario 1 followed by more text.
  No pattern of the table matches it in full, and automatic detection returns a parsed entry
  for it, extracted from the match of its prefix.
\<close>

theorem partial_match_is_parsed:
  "parse_log_line strptime trailing_line ''auto''
     = Inr \<lparr>raw_line = trailing_line, parsed = True, line_number = None,
            format = Some ''apache'', ip = Some ''10.0.0.1'',
            timestamp = Some (Some \<lparr>year = 2024, month = 10, day = 10, hour = 13,
                                     minute = 55, second = 36, microsecond = 0,
                                     tzinfo = Some (- 25200)\<rparr>),
            request = Some ''GET /index.html HTTP/1.1'', status = Some 200,
            size = Some 512, req_method = Some ''GET'', path = Some ''/index.html'',
            protocol = Some ''HTTP/1.1'', referer = None, user_agent = None,
            level = None, message = None\<rparr>
   \<and> fullmatch pat_apache trailing_line = None \<and> fullmatch pat_nginx trailing_line = None
   \<and> fullmatch pat_common trailing_line = None \<and> fullmatch pat_combined trailing_line = None
   \<and> fullmatch pat_custom trailing_line = None"
proof -
  have gs: "re_match pat_apache trailing_line
              = Some [''10.0.0.1'', ''10/Oct/2024:13:55:36 -0700'',
                      ''GET /index.html HTTP/1.1'', ''200'', ''512'']"
    unfolding trailing_line_def re_match_def pat_apache_def lits_def grp_def
    by (simp add: first_some_upt first_some_rev_upt is_space_def is_decimal_def del: upt_Suc)
  have p: "parse_log_line strptime trailing_line ''auto'' = Inr \<lparr>raw_line = trailing_line, parsed = True, line_number = None,
            format = Some ''apache'', ip = Some ''10.0.0.1'',
            timestamp = Some (Some \<lparr>year = 2024, month = 10, day = 10, hour = 13,
                                     minute = 55, second = 36, microsecond = 0,
                                     tzinfo = Some (- 25200)\<rparr>),
            request = Some ''GET /index.html HTTP/1.1'', status = Some 200,
            size = Some 512, req_method = Some ''GET'', path = Some ''/index.html'',
            protocol = Some ''HTTP/1.1'', referer = None, user_agent = None,
            level = None, message = None\<rparr>"
    unfolding parse_auto_apache[OF gs]
    by (simp add: scenario1_timestamp extract_fields_def rbind_def tuple_get_def str_isdigit_def
          is_digit_char_def py_int_def int_max_str_digits_def decimal_val_def digit_val_def
          split_def unparsed_def is_decimal_def is_space_def)
  have f1: "fullmatch pat_apache trailing_line = None"
    unfolding fullmatch_def trailing_line_def re_match_def pat_apache_def lits_def grp_def
    by (simp add: first_some_upt first_some_rev_upt is_space_def is_decimal_def del: upt_Suc)
  have f2: "fullmatch pat_nginx trailing_line = None"
    unfolding fullmatch_def trailing_line_def re_match_def pat_nginx_def lits_def grp_def
    by (simp add: first_some_upt first_some_rev_upt is_space_def is_decimal_def del: upt_Suc)
  have f3: "fullmatch pat_common trailing_line = None"
    unfolding fullmatch_def trailing_line_def re_match_def pat_common_def lits_def grp_def
    by (simp add: first_some_upt first_some_rev_upt is_space_def is_decimal_def del: upt_Suc)
  have f4: "fullmatch pat_combined trailing_line = None"
    unfolding fullmatch_def trailing_line_def re_match_def pat_combined_def lits_def grp_def
    by (simp add: first_some_upt first_some_rev_upt is_space_def is_decimal_def del: upt_Suc)
  have f5: "fullmatch pat_custom trailing_line = None"
    unfolding fullmatch_def trailing_line_def re_match_def pat_custom_def lits_def grp_def
    by (simp add: first_some_upt first_some_rev_upt is_space_def is_decimal_def del: upt_Suc)
  show ?thesis using p f1 f2 f3 f4 f5 by (intro conjI)
qed

text \<open>
  Claim C1, amended. Under automatic detection an entry that is returned is parsed exactly
  when some pattern of the table matches a prefix of the line in full (the match is anchored
  at the start of the line and need not reach its end), and an entry that is not parsed is
  \<^verbatim>\<open>{raw_line: line, parsed: false}\<close>. That entry is returned when no pattern matches a
  prefix, and a parsed entry is returned when one does and the line has at most 4300
  characters.
\<close>

theorem parse_auto_prefix_match:
  "(\<forall>e. parse_log_line sp line ''auto'' = Inr e \<longrightarrow>
        (parsed e \<longleftrightarrow>
           (\<exists>(n, p) \<in> set log_patterns. \<exists>pre rest. line = pre @ rest \<and> fullmatch p pre \<noteq> None))
        \<and> (\<not> parsed e \<longrightarrow> e = unparsed line))
   \<and> (\<not> (\<exists>(n, p) \<in> set log_patterns. \<exists>pre rest. line = pre @ rest \<and> fullmatch p pre \<noteq> None)
        \<longrightarrow> parse_log_line sp line ''auto'' = Inr (unparsed line))
   \<and> ((\<exists>(n, p) \<in> set log_patterns. \<exists>pre rest. line = pre @ rest \<and> fullmatch p pre \<noteq> None)
        \<and> length line \<le> int_max_str_digits
        \<longrightarrow> (\<exists>e. parse_log_line sp line ''auto'' = Inr e \<and> parsed e))"
proof (cases "auto_detect sp log_patterns line")
  case None
  then have "\<forall>(n, p) \<in> set log_patterns. re_match p line = None"
    by (simp add: auto_detect_None)
  then have no: "\<not> (\<exists>(n, p) \<in> set log_patterns. \<exists>pre rest. line = pre @ rest \<and> fullmatch p pre \<noteq> None)"
    unfolding some_prefix_iff by fastforce
  have p: "parse_log_line sp line ''auto'' = Inr (unparsed line)"
    using None by (simp add: parse_log_line_def)
  have "\<not> parsed (unparsed line)" by (simp add: unparsed_def)
  with no p show ?thesis by simp
next
  case (Some r)
  from auto_detect_Some[OF Some] obtain n p gs where np: "(n, p) \<in> set log_patterns"
    and m: "re_match p line = Some gs" and r: "r = extract_fields sp gs n line" by blast
  have p: "parse_log_line sp line ''auto'' = extract_fields sp gs n line"
    using Some r by (simp add: parse_log_line_def)
  have "\<exists>(n, p) \<in> set log_patterns. re_match p line \<noteq> None" using np m by force
  then have yes: "\<exists>(n, p) \<in> set log_patterns. \<exists>pre rest. line = pre @ rest \<and> fullmatch p pre \<noteq> None"
    unfolding some_prefix_iff .
  have a: "parsed e" if "parse_log_line sp line ''auto'' = Inr e" for e
    using extract_ok[OF np m, of sp] that unfolding p extracted_def by auto
  have b: "\<exists>e. parse_log_line sp line ''auto'' = Inr e \<and> parsed e"
    if "length line \<le> int_max_str_digits"
    using extract_ok[OF np m, of sp] that unfolding p extracted_def by auto
  show ?thesis using yes a b by blast
qed

theorem parse_auto_prefix_match_witness:
  "(\<exists>(n, p) \<in> set log_patterns. \<exists>pre rest. trailing_line = pre @ rest \<and> fullmatch p pre \<noteq> None)
   \<and> (\<exists>e. parse_log_line strptime trailing_line ''auto'' = Inr e \<and> parsed e)
   \<and> parse_log_line strptime ''no pattern here'' ''auto'' = Inr (unparsed ''no pattern here'')"
proof -
  have f: "fullmatch pat_apache scenario1_line \<noteq> None"
    unfolding fullmatch_def scenario1_line_def re_match_def pat_apache_def lits_def grp_def
    by (simp add: first_some_upt first_some_rev_upt is_space_def is_decimal_def del: upt_Suc)
  have "trailing_line = scenario1_line @ '' and more text''"
    by (simp add: trailing_line_def scenario1_line_def)
  with f have "\<exists>pre rest. trailing_line = pre @ rest \<and> fullmatch pat_apache pre \<noteq> None" by blast
  moreover have "(''apache'', pat_apache) \<in> set log_patterns" by (simp add: log_patterns_def)
  ultimately have pm: "\<exists>(n, p) \<in> set log_patterns. \<exists>pre rest. trailing_line = pre @ rest
                          \<and> fullmatch p pre \<noteq> None" by blast
  have l: "length trailing_line \<le> int_max_str_digits"
    by (simp add: trailing_line_def int_max_str_digits_def)
  from parse_auto_prefix_match[of strptime trailing_line] pm l
  have e: "\<exists>e. parse_log_line strptime trailing_line ''auto'' = Inr e \<and> parsed e" by blast
  have "\<forall>(n, p) \<in> set log_patterns. re_match p ''no pattern here'' = None"
    unfolding log_patterns_def re_match_def pat_apache_def pat_nginx_def pat_common_def
      pat_combined_def pat_custom_def lits_def grp_def
    by (simp add: first_some_upt first_some_rev_upt is_space_def is_decimal_def del: upt_Suc)
  then have "\<not> (\<exists>(n, p) \<in> set log_patterns. \<exists>pre rest. ''no pattern here'' = pre @ rest
                  \<and> fullmatch p pre \<noteq> None)"
    unfolding some_prefix_iff by fastforce
  with parse_auto_prefix_match[of strptime "''no pattern here''"]
  have "parse_log_line strptime ''no pattern here'' ''auto'' = Inr (unparsed ''no pattern here'')"
    by blast
  with pm e show ?thesis by (intro conjI)
qed

text \<open>
  Claim C10. For every line and every format selector, an entry that the parser returns is
  an entry of that line that is either the unparsed entry (\<^verbatim>\<open>raw_line\<close> and
  \<^verbatim>\<open>parsed = false\<close>, no other key) or is parsed, tagged with one of the five names of the
  table, and has the keys of that format and no key of another format. An entry is returned
  for every line of at most 4300 characters.
\<close>

theorem entry_tagged_or_unparsed:
  "(\<forall>e. parse_log_line sp line fmt = Inr e \<longrightarrow>
        raw_line e = line \<and> line_number e = None
        \<and> ((\<not> parsed e \<and> e = unparsed line)
            \<or> (parsed e
                \<and> format e \<in> Some ` {''apache'', ''nginx'', ''common'', ''combined'', ''custom''}
                \<and> format_fields e)))
   \<and> (length line \<le> int_max_str_digits \<longrightarrow> (\<exists>e. parse_log_line sp line fmt = Inr e))"
proof (rule conjI, intro allI impI)
  fix e assume e: "parse_log_line sp line fmt = Inr e"
  from parse_log_line_cases[of sp line fmt]
  show "raw_line e = line \<and> line_number e = None
        \<and> ((\<not> parsed e \<and> e = unparsed line)
            \<or> (parsed e
                \<and> format e \<in> Some ` {''apache'', ''nginx'', ''common'', ''combined'', ''custom''}
                \<and> format_fields e))"
  proof
    assume "parse_log_line sp line fmt = Inr (unparsed line)"
    with e have "e = unparsed line" by simp
    then show ?thesis by (simp add: unparsed_def)
  next
    assume "\<exists>n p gs. (n, p) \<in> set log_patterns \<and> (fmt = ''auto'' \<or> fmt = n)
         \<and> re_match p line = Some gs
         \<and> parse_log_line sp line fmt = extract_fields sp gs n line
         \<and> ((extract_fields sp gs n line = Inl ValueError \<and> int_max_str_digits < length line)
             \<or> extracted sp gs n line)"
    then obtain n p gs where np: "(n, p) \<in> set log_patterns"
      and p: "parse_log_line sp line fmt = extract_fields sp gs n line"
      and c: "(extract_fields sp gs n line = Inl ValueError \<and> int_max_str_digits < length line)
             \<or> extracted sp gs n line" by blast
    from c e p have x: "parsed e" "format e = Some n" "raw_line e = line"
      "line_number e = None" "format_fields e" unfolding extracted_def by auto
    from np have "n \<in> {''apache'', ''nginx'', ''common'', ''combined'', ''custom''}"
      by (auto simp: log_patterns_def)
    then have tag: "format e \<in> Some ` {''apache'', ''nginx'', ''common'', ''combined'', ''custom''}"
      unfolding x(2) by (rule imageI)
    show ?thesis using x(1,3,4,5) tag by (intro conjI disjI2)
  qed
next
  show "length line \<le> int_max_str_digits \<longrightarrow> (\<exists>e. parse_log_line sp line fmt = Inr e)"
    by (intro impI) (rule parse_log_line_short_total)
qed

theorem entry_tagged_or_unparsed_witness:
  "(\<exists>e. parse_log_line strptime combined_line ''nginx'' = Inr e \<and> parsed e
         \<and> format e = Some ''nginx'' \<and> format_fields e
         \<and> referer e = Some None \<and> user_agent e = Some (Some ''Mozilla/5.0''))
   \<and> parse_log_line strptime ''no such format'' ''nginx'' = Inr (unparsed ''no such format'')"
proof -
  have gs: "re_match pat_nginx combined_line
              = Some [''10.0.0.1'', ''10/Oct/2024:13:55:36 -0700'',
                      ''GET /index.html HTTP/1.1'', ''200'', ''512'', ''-'', ''Mozilla/5.0'']"
    unfolding combined_line_def re_match_def pat_nginx_def lits_def grp_def
    by (simp add: first_some_upt first_some_rev_upt is_space_def is_decimal_def del: upt_Suc)
  have "parse_log_line strptime combined_line ''nginx''
          = extract_fields strptime [''10.0.0.1'', ''10/Oct/2024:13:55:36 -0700'',
               ''GET /index.html HTTP/1.1'', ''200'', ''512'', ''-'', ''Mozilla/5.0'']
               ''nginx'' combined_line"
    using gs by (simp add: parse_log_line_def log_patterns_def)
  then obtain e0 where e0: "parse_log_line strptime combined_line ''nginx'' = Inr e0"
    "parsed e0" "format e0 = Some ''nginx''" "referer e0 = Some None"
    "user_agent e0 = Some (Some ''Mozilla/5.0'')"
    by (simp add: extract_fields_def rbind_def tuple_get_def str_isdigit_def
          is_digit_char_def py_int_def int_max_str_digits_def decimal_val_def digit_val_def
          split_def unparsed_def is_decimal_def is_space_def)
  from entry_tagged_or_unparsed[of strptime combined_line "''nginx''"] e0(1,2)
  have "format_fields e0" by blast
  moreover have "parse_log_line strptime ''no such format'' ''nginx''
                   = Inr (unparsed ''no such format'')"
    unfolding parse_log_line_def log_patterns_def re_match_def pat_nginx_def lits_def grp_def
    by (simp add: first_some_upt first_some_rev_upt is_space_def is_decimal_def del: upt_Suc)
  ultimately show ?thesis using e0 by blast
qed

text \<open>
  Claim C7. The timestamp parser tries the four layouts in their order; its result is the
  object of the first layout that the library accepts, and \<open>None\<close> exactly when the library
  rejects all four. The result is an optional value: no exception leaves the function.
\<close>

theorem parse_timestamp_layouts:
  "timestamp_formats = [''%d/%b/%Y:%H:%M:%S %z'', ''%d/%b/%Y:%H:%M:%S'',
                        ''%Y-%m-%d %H:%M:%S'', ''%Y-%m-%d %H:%M:%S.%f'']
   \<and> (parse_timestamp sp s = None \<longleftrightarrow> (\<forall>fmt \<in> set timestamp_formats. sp s fmt = None))
   \<and> (\<forall>d. parse_timestamp sp s = Some d \<longrightarrow>
          (\<exists>i < length timestamp_formats.
              sp s (timestamp_formats ! i) = Some d
              \<and> (\<forall>j < i. sp s (timestamp_formats ! j) = None)))"
  using try_formats_None[of sp s timestamp_formats] try_formats_Some[of sp s timestamp_formats]
  by (auto simp: parse_timestamp_def timestamp_formats_def)

theorem parse_timestamp_layouts_witness:
  "parse_timestamp strptime ''2024-10-10 13:55:36''
     = Some \<lparr>year = 2024, month = 10, day = 10, hour = 13, minute = 55, second = 36,
              microsecond = 0, tzinfo = None\<rparr>
   \<and> strptime ''2024-10-10 13:55:36'' ''%d/%b/%Y:%H:%M:%S %z'' = None
   \<and> strptime ''2024-10-10 13:55:36'' ''%d/%b/%Y:%H:%M:%S'' = None
   \<and> parse_timestamp strptime ''yesterday'' = None"
proof -
  have n: "\<forall>fmt \<in> set timestamp_formats. strptime ''yesterday'' fmt = None"
    by (simp add: strptime_eval is_decimal_def is_space_def decimal_val_def digit_val_def)
  have a: "strptime ''2024-10-10 13:55:36'' ''%d/%b/%Y:%H:%M:%S %z'' = None"
    by (simp add: strptime_eval is_decimal_def is_space_def decimal_val_def digit_val_def)
  have b: "strptime ''2024-10-10 13:55:36'' ''%d/%b/%Y:%H:%M:%S'' = None"
    by (simp add: strptime_eval is_decimal_def is_space_def decimal_val_def digit_val_def)
  have c: "strptime ''2024-10-10 13:55:36'' ''%Y-%m-%d %H:%M:%S''
             = Some \<lparr>year = 2024, month = 10, day = 10, hour = 13, minute = 55, second = 36,
                      microsecond = 0, tzinfo = None\<rparr>"
    by (simp add: strptime_eval is_decimal_def is_space_def decimal_val_def digit_val_def)
  have "parse_timestamp strptime ''2024-10-10 13:55:36'' \<noteq> None"
    using parse_timestamp_layouts[of strptime "''2024-10-10 13:55:36''"] c
    by (auto simp: timestamp_formats_def)
  then obtain d where d: "parse_timestamp strptime ''2024-10-10 13:55:36'' = Some d" by blast
  with parse_timestamp_layouts[of strptime "''2024-10-10 13:55:36''"]
  obtain i where i: "i < length timestamp_formats"
    "strptime ''2024-10-10 13:55:36'' (timestamp_formats ! i) = Some d"
    "\<forall>j < i. strptime ''2024-10-10 13:55:36'' (timestamp_formats ! j) = None" by blast
  have "i = 2"
  proof (rule ccontr)
    assume "i \<noteq> 2"
    moreover have "i < 4" using i(1) by (simp add: timestamp_formats_def)
    ultimately consider "i = 0" | "i = 1" | "i = 3" by linarith
    then show False
    proof cases
      case 1 then show ?thesis using i(2) a by (simp add: timestamp_formats_def)
    next
      case 2 then show ?thesis using i(2) b by (simp add: timestamp_formats_def)
    next
      case 3
      then have "strptime ''2024-10-10 13:55:36'' (timestamp_formats ! 2) = None"
        using i(3) by simp
      then show ?thesis using c by (simp add: timestamp_formats_def)
    qed
  qed
  with i(2) c have "d = \<lparr>year = 2024, month = 10, day = 10, hour = 13, minute = 55,
                          second = 36, microsecond = 0, tzinfo = None\<rparr>"
    by (simp add: timestamp_formats_def)
  moreover have "parse_timestamp strptime ''yesterday'' = None"
    using parse_timestamp_layouts[of strptime "''yesterday''"] n by blast
  ultimately show ?thesis using d a b by simp
qed

section \<open>Properties of the anomaly detector\<close>

lemma detect_entry_total: "detect_entry e = Inr (entry_anomalies e)"
  by (cases "status e"; cases "size e")
     (simp_all add: entry_anomalies_def detect_entry_def rbind_def subscript_def get_or_def)

lemma detect_loop_eq:
  "detect_loop acc es = Inr (acc @ concat (map entry_anomalies es))"
  by (induction es arbitrary: acc) (simp_all add: detect_entry_total)

lemma detect_anomalies_total:
  "detect_anomalies entries = Inr (concat (map entry_anomalies entries))"
  by (simp add: detect_anomalies_def detect_loop_eq)

lemma scan_patterns_fields:
  "a \<in> set (scan_patterns ps e p)
   \<Longrightarrow> a_type a = ''suspicious_path'' \<and> a_severity a = ''high'' \<and> a_entry a = e"
  by (induction ps) (auto split: if_splits)

lemma scan_patterns_length:
  "length (scan_patterns ps e p) = (if \<exists>q \<in> set ps. re_search q p then 1 else 0)"
  by (induction ps) auto

lemma entry_anomalies_unparsed: "\<not> parsed e \<Longrightarrow> entry_anomalies e = []"
  by (simp add: entry_anomalies_def detect_entry_def)

lemma entry_anomalies_parsed:
  assumes "parsed e"
  shows "entry_anomalies e =
     (if get_or (status e) 0 \<ge> 400 then
        [\<lparr>a_type = ''error_status'',
          a_severity = (if get_or (status e) 0 \<ge> 500 then ''high'' else ''medium''),
          a_message = ''HTTP '' @ str_int (get_or (status e) 0) @ '' from ''
                      @ get_or (ip e) ''unknown'',
          a_entry = e\<rparr>]
      else [])
     @ (if get_or (size e) 0 > 10 * 1024 * 1024 then
          [\<lparr>a_type = ''large_response'', a_severity = ''medium'',
            a_message = ''Large response '' @ str_int (get_or (size e) 0) @ '' bytes'',
            a_entry = e\<rparr>]
        else [])
     @ scan_patterns suspicious_patterns e (get_or (path e) '''')"
  using assms
  by (cases "status e"; cases "size e")
     (simp_all add: entry_anomalies_def detect_entry_def rbind_def subscript_def get_or_def)

lemma entry_anomalies_entry: "a \<in> set (entry_anomalies e) \<Longrightarrow> a_entry a = e"
proof (cases "parsed e")
  case True
  assume "a \<in> set (entry_anomalies e)"
  then show ?thesis unfolding entry_anomalies_parsed[OF True]
    using scan_patterns_fields[of a suspicious_patterns e "get_or (path e) ''''"]
    by (auto split: if_splits)
next
  case False
  assume "a \<in> set (entry_anomalies e)"
  then show ?thesis using entry_anomalies_unparsed[OF False] by simp
qed

lemma filter_scan_suspicious:
  "filter (\<lambda>a. a_type a = ''suspicious_path'' \<and> a_entry a = e) (scan_patterns ps e p)
     = scan_patterns ps e p"
  using scan_patterns_fields[of _ ps e p] by (simp add: filter_id_conv)

lemma suspicious_count_entry:
  assumes "parsed e"
  shows "length (filter (\<lambda>a. a_type a = ''suspicious_path'' \<and> a_entry a = e) (entry_anomalies e))
         = (if \<exists>q \<in> set suspicious_patterns. re_search q (get_or (path e) '''') then 1 else 0)"
proof -
  have "filter (\<lambda>a. a_type a = ''suspicious_path'' \<and> a_entry a = e) (entry_anomalies e)
          = scan_patterns suspicious_patterns e (get_or (path e) '''')"
    unfolding entry_anomalies_parsed[OF assms] by (simp add: filter_scan_suspicious)
  then show ?thesis by (simp add: scan_patterns_length)
qed

lemma length_filter_concat_map:
  "length (filter P (concat (map f es))) = sum_list (map (\<lambda>x. length (filter P (f x))) es)"
  by (induction es) auto

lemma sum_list_indicator: "sum_list (map (\<lambda>x. if x = e then 1 else 0) es) = count_list es e"
  by (induction es) auto

lemma filter_other_entry:
  assumes "e' \<noteq> e"
  shows "filter (\<lambda>a. P a \<and> a_entry a = e) (entry_anomalies e') = []"
  using entry_anomalies_entry[of _ e'] assms by (auto simp: filter_empty_conv)

text \<open>
  Claim C5. For a parsed entry whose path matches two or more of the seven suspicious
  patterns, the detector returns, for every batch, exactly one anomaly of type
  \<^verbatim>\<open>suspicious_path\<close> for each occurrence of the entry in the batch, and its severity is
  \<^verbatim>\<open>high\<close>: the loop over the patterns ends at the first pattern found.
\<close>

theorem one_suspicious_path_per_entry:
  assumes "parsed e"
    and "2 \<le> length (filter (\<lambda>q. re_search q (get_or (path e) '''')) suspicious_patterns)"
  shows "\<exists>as. detect_anomalies entries = Inr as
           \<and> length (filter (\<lambda>a. a_type a = ''suspicious_path'' \<and> a_entry a = e) as)
               = count_list entries e
           \<and> (\<forall>a \<in> set as. a_type a = ''suspicious_path'' \<and> a_entry a = e
                   \<longrightarrow> a_severity a = ''high'')"
proof -
  let ?P = "\<lambda>a. a_type a = ''suspicious_path'' \<and> a_entry a = e"
  from assms(2) have "filter (\<lambda>q. re_search q (get_or (path e) '''')) suspicious_patterns \<noteq> []"
    by auto
  then have ex: "\<exists>q \<in> set suspicious_patterns. re_search q (get_or (path e) '''')"
    by (simp add: filter_empty_conv)
  have one: "length (filter ?P (entry_anomalies e')) = (if e' = e then 1 else 0)" for e'
  proof (cases "e' = e")
    case True
    then show ?thesis using suspicious_count_entry[OF assms(1)] ex by simp
  next
    case False
    then show ?thesis using filter_other_entry[OF False, of "\<lambda>a. a_type a = ''suspicious_path''"]
      by simp
  qed
  have cnt: "length (filter ?P (concat (map entry_anomalies entries))) = count_list entries e"
    unfolding length_filter_concat_map one by (rule sum_list_indicator)
  have sev: "a_severity a = ''high''"
    if a: "a \<in> set (concat (map entry_anomalies entries))" and p: "?P a" for a
  proof -
    from a obtain e' where e': "e' \<in> set entries" "a \<in> set (entry_anomalies e')" by auto
    from entry_anomalies_entry[OF e'(2)] p have "e' = e" by simp
    with e'(2) p have "a \<in> set (filter ?P (entry_anomalies e))" by simp
    then have "a \<in> set (scan_patterns suspicious_patterns e (get_or (path e) ''''))"
      unfolding entry_anomalies_parsed[OF assms(1)] by (simp add: filter_scan_suspicious)
    then show ?thesis by (simp add: scan_patterns_fields)
  qed
  show ?thesis
    unfolding detect_anomalies_total using cnt sev by blast
qed

theorem one_suspicious_path_per_entry_witness:
  "\<exists>as. detect_anomalies [scenario3_entry, scenario5_entry] = Inr as
      \<and> length (filter (\<lambda>a. a_type a = ''suspicious_path'' \<and> a_entry a = scenario5_entry) as) = 1"
proof -
  have p: "parsed scenario5_entry" by (simp add: scenario5_entry_def)
  have "path scenario5_entry = Some ''/wp-admin/config.php''" by (simp add: scenario5_entry_def)
  then have "filter (\<lambda>q. re_search q (get_or (path scenario5_entry) '''')) suspicious_patterns
          = [(''.php'', True), (''admin'', False), (''wp-admin'', False), (''config'', False)]"
    by (simp add: get_or_def suspicious_patterns_def match_here_def at_dollar_def ascii_lower_def)
  then have m: "2 \<le> length (filter (\<lambda>q. re_search q (get_or (path scenario5_entry) ''''))
                       suspicious_patterns)" by simp
  have "scenario3_entry \<noteq> scenario5_entry"
    by (simp add: scenario3_entry_def scenario5_entry_def unparsed_def)
  then have "count_list [scenario3_entry, scenario5_entry] scenario5_entry = 1" by simp
  with one_suspicious_path_per_entry[OF p m, of "[scenario3_entry, scenario5_entry]"]
  show ?thesis by auto
qed

text \<open>
  Claim C6. For every batch the detector returns a list in which a parsed entry of the batch
  has an anomaly of type \<^verbatim>\<open>error_status\<close> exactly when its status is at least 400, and the
  severity of such an anomaly is \<^verbatim>\<open>high\<close> when the status is at least 500 and \<^verbatim>\<open>medium\<close>
  otherwise.
\<close>

theorem error_status_iff:
  "\<exists>as. detect_anomalies entries = Inr as
      \<and> (\<forall>e \<in> set entries. parsed e \<longrightarrow>
            ((\<exists>a \<in> set as. a_type a = ''error_status'' \<and> a_entry a = e)
               \<longleftrightarrow> (\<exists>s. status e = Some s \<and> s \<ge> 400))
            \<and> (\<forall>a \<in> set as. a_type a = ''error_status'' \<and> a_entry a = e \<longrightarrow>
                  (\<exists>s. status e = Some s
                       \<and> a_severity a = (if s \<ge> 500 then ''high'' else ''medium''))))"
proof -
  let ?as = "concat (map entry_anomalies entries)"
  have own: "a \<in> set (entry_anomalies e)"
    if "a \<in> set ?as" "a_entry a = e" for a e
  proof -
    from that(1) obtain e' where "a \<in> set (entry_anomalies e')" by auto
    with entry_anomalies_entry[OF this] that(2) show ?thesis by simp
  qed
  have err: "filter (\<lambda>a. a_type a = ''error_status'') (entry_anomalies e) =
       (if get_or (status e) 0 \<ge> 400 then
        [\<lparr>a_type = ''error_status'',
          a_severity = (if get_or (status e) 0 \<ge> 500 then ''high'' else ''medium''),
          a_message = ''HTTP '' @ str_int (get_or (status e) 0) @ '' from ''
                      @ get_or (ip e) ''unknown'',
          a_entry = e\<rparr>]
        else [])" if "parsed e" for e
  proof -
    have "filter (\<lambda>a. a_type a = ''error_status'')
            (scan_patterns suspicious_patterns e (get_or (path e) '''')) = []"
      using scan_patterns_fields[of _ suspicious_patterns e "get_or (path e) ''''"]
      by (auto simp: filter_empty_conv)
    then show ?thesis unfolding entry_anomalies_parsed[OF that] by simp
  qed
  have st: "get_or (status e) 0 \<ge> 400 \<longleftrightarrow> (\<exists>s. status e = Some s \<and> s \<ge> 400)" for e
    by (cases "status e") (simp_all add: get_or_def)
  have main: "((\<exists>a \<in> set ?as. a_type a = ''error_status'' \<and> a_entry a = e)
               \<longleftrightarrow> (\<exists>s. status e = Some s \<and> s \<ge> 400))
            \<and> (\<forall>a \<in> set ?as. a_type a = ''error_status'' \<and> a_entry a = e \<longrightarrow>
                  (\<exists>s. status e = Some s
                       \<and> a_severity a = (if s \<ge> 500 then ''high'' else ''medium'')))"
    if e: "e \<in> set entries" "parsed e" for e
  proof (intro conjI iffI ballI impI)
    assume "\<exists>a \<in> set ?as. a_type a = ''error_status'' \<and> a_entry a = e"
    then obtain a where a: "a \<in> set ?as" "a_type a = ''error_status''" "a_entry a = e" by blast
    from own[OF a(1,3)] a(2) have "a \<in> set (filter (\<lambda>a. a_type a = ''error_status'') (entry_anomalies e))"
      by simp
    then have "get_or (status e) 0 \<ge> 400" unfolding err[OF e(2)] by (simp split: if_splits)
    then show "\<exists>s. status e = Some s \<and> s \<ge> 400" unfolding st .
  next
    assume "\<exists>s. status e = Some s \<and> s \<ge> 400"
    then have ge: "get_or (status e) 0 \<ge> 400" unfolding st .
    define a where "a = \<lparr>a_type = ''error_status'',
          a_severity = (if get_or (status e) 0 \<ge> 500 then ''high'' else ''medium''),
          a_message = ''HTTP '' @ str_int (get_or (status e) 0) @ '' from ''
                      @ get_or (ip e) ''unknown'',
          a_entry = e\<rparr>"
    have "a \<in> set (filter (\<lambda>a. a_type a = ''error_status'') (entry_anomalies e))"
      unfolding err[OF e(2)] using ge by (simp add: a_def)
    then have "a \<in> set (entry_anomalies e)" by simp
    then have "a \<in> set ?as" using e(1) by auto
    moreover have "a_type a = ''error_status''" "a_entry a = e" by (simp_all add: a_def)
    ultimately show "\<exists>a \<in> set ?as. a_type a = ''error_status'' \<and> a_entry a = e" by blast
  next
    fix a assume a: "a \<in> set ?as" "a_type a = ''error_status'' \<and> a_entry a = e"
    from own[of a e] a have "a \<in> set (filter (\<lambda>a. a_type a = ''error_status'') (entry_anomalies e))"
      by simp
    then have ge: "get_or (status e) 0 \<ge> 400"
      and sev: "a_severity a = (if get_or (status e) 0 \<ge> 500 then ''high'' else ''medium'')"
      unfolding err[OF e(2)] by (auto split: if_splits)
    from ge obtain s where s: "status e = Some s" unfolding st by blast
    then have "get_or (status e) 0 = s" by (simp add: get_or_def)
    with sev s show "\<exists>s. status e = Some s
                       \<and> a_severity a = (if s \<ge> 500 then ''high'' else ''medium'')" by simp
  qed
  show ?thesis unfolding detect_anomalies_total using main by blast
qed

theorem error_status_iff_witness:
  "\<exists>as. detect_anomalies [scenario3_entry, scenario5_entry] = Inr as
      \<and> (\<exists>a \<in> set as. a_type a = ''error_status'' \<and> a_entry a = scenario3_entry
                       \<and> a_severity a = ''high'')
      \<and> \<not> (\<exists>a \<in> set as. a_type a = ''error_status'' \<and> a_entry a = scenario5_entry)"
proof -
  from error_status_iff[of "[scenario3_entry, scenario5_entry]"]
  obtain as where as: "detect_anomalies [scenario3_entry, scenario5_entry] = Inr as"
    and all: "\<forall>e \<in> set [scenario3_entry, scenario5_entry]. parsed e \<longrightarrow>
            ((\<exists>a \<in> set as. a_type a = ''error_status'' \<and> a_entry a = e)
               \<longleftrightarrow> (\<exists>s. status e = Some s \<and> s \<ge> 400))
            \<and> (\<forall>a \<in> set as. a_type a = ''error_status'' \<and> a_entry a = e \<longrightarrow>
                  (\<exists>s. status e = Some s
                       \<and> a_severity a = (if s \<ge> 500 then ''high'' else ''medium'')))"
    by blast
  have p3: "parsed scenario3_entry" "status scenario3_entry = Some 503"
    by (simp_all add: scenario3_entry_def)
  have p5: "parsed scenario5_entry" "status scenario5_entry = Some 200"
    by (simp_all add: scenario5_entry_def)
  from all p3 have 3: "(\<exists>a \<in> set as. a_type a = ''error_status'' \<and> a_entry a = scenario3_entry)"
    "\<forall>a \<in> set as. a_type a = ''error_status'' \<and> a_entry a = scenario3_entry \<longrightarrow>
        a_severity a = ''high''" by simp_all
  from all p5 have 5: "\<not> (\<exists>a \<in> set as. a_type a = ''error_status'' \<and> a_entry a = scenario5_entry)"
    by simp
  from 3 have "\<exists>a \<in> set as. a_type a = ''error_status'' \<and> a_entry a = scenario3_entry
                       \<and> a_severity a = ''high''" by blast
  with as 5 show ?thesis by blast
qed

end
